theory Spec2Isabelle
  imports Main "HOL-Library.Multiset" "HOL-Library.Signed_Division"
begin

section \<open>Data model of the wallet (src/wallet/wallet.cpp)\<close>

text \<open>
  Transaction and block hashes (\<open>uint256\<close>) are natural numbers, amounts (\<open>CAmount\<close>,
  a signed 64-bit count of base units bounded by the money range) are integers, scripts
  are byte strings.  An outpoint is the pair of the \<open>hash\<close> of a transaction and the
  index \<open>n\<close> of one of its outputs (field \<open>n_out\<close> here).
\<close>

type_synonym uint256 = nat
type_synonym CAmount = int
type_synonym CScript = "nat list"

text \<open>
  Amounts are added and compared in the integers.  The source adds them in the 64 bits
  of \<open>CAmount\<close>, so a sum of the model is the sum of the source as long as it stays in
  that range, which \<open>in_int64\<close> says.
\<close>

definition in_int64 :: "int \<Rightarrow> bool" where
  "in_int64 x = (- 9223372036854775808 \<le> x \<and> x \<le> 9223372036854775807)"

record COutPoint =
  hash :: uint256
  n_out :: nat

record CTxOut =
  nValue :: CAmount
  scriptPubKey :: CScript

text \<open>
  \<open>CInputCoin\<close>: an outpoint with the output it names.  A \<open>std::set<CInputCoin>\<close> is
  ordered by outpoint, so it is a list kept strictly increasing in the outpoint.
\<close>

record CInputCoin =
  outpoint :: COutPoint
  txout :: CTxOut

text \<open>
  \<open>COutput\<close>: a candidate produced by the scan of the wallet.  The pointer \<open>tx\<close> to the
  wallet record is resolved: \<open>tx_hash\<close> is \<open>tx->GetHash()\<close>, \<open>tx_fromMe\<close> is
  \<open>tx->IsFromMe(ISMINE_ALL)\<close> and \<open>tx_out\<close> is the output \<open>tx->tx->vout[i]\<close>.
\<close>

record COutput =
  tx_hash :: uint256
  tx_fromMe :: bool
  tx_out :: CTxOut
  out_i :: nat
  nDepth :: int
  fSpendable :: bool

definition outpoint_less :: "COutPoint \<Rightarrow> COutPoint \<Rightarrow> bool" where
  "outpoint_less a b = (hash a < hash b \<or> (hash a = hash b \<and> n_out a < n_out b))"

definition mk_CInputCoin :: "COutput \<Rightarrow> CInputCoin" where
  "mk_CInputCoin output =
     \<lparr>outpoint = \<lparr>hash = tx_hash output, n_out = out_i output\<rparr>, txout = tx_out output\<rparr>"

definition coin_value :: "CInputCoin \<Rightarrow> CAmount" where
  "coin_value coin = nValue (txout coin)"

text \<open>\<open>std::set<CInputCoin>::insert\<close>: nothing happens when the outpoint is present.\<close>

fun insert_sorted :: "CInputCoin \<Rightarrow> CInputCoin list \<Rightarrow> CInputCoin list" where
  "insert_sorted c [] = [c]"
| "insert_sorted c (d # ds) =
     (if outpoint_less (outpoint c) (outpoint d) then c # d # ds else d # insert_sorted c ds)"

definition set_insert :: "CInputCoin \<Rightarrow> CInputCoin list \<Rightarrow> CInputCoin list" where
  "set_insert c S = (if \<exists>d\<in>set S. outpoint d = outpoint c then S else insert_sorted c S)"

section \<open>Coin selection\<close>

subsection \<open>\<open>std::random_shuffle\<close> with \<open>GetRandInt\<close>\<close>

text \<open>
  The shuffle walks the positions \<open>1 .. size-1\<close> and swaps position \<open>i\<close> with the
  position \<open>GetRandInt(i+1)\<close>.  The random source is the function \<open>rnd\<close>: \<open>rnd i\<close> is the
  draw made at position \<open>i\<close>, reduced into the range the call asks for.
\<close>

definition swap_at :: "nat \<Rightarrow> nat \<Rightarrow> 'a list \<Rightarrow> 'a list" where
  "swap_at i j xs = xs[i := xs ! j, j := xs ! i]"

fun random_shuffle_from :: "(nat \<Rightarrow> nat) \<Rightarrow> nat \<Rightarrow> nat \<Rightarrow> 'a list \<Rightarrow> 'a list" where
  "random_shuffle_from rnd 0 i xs = xs"
| "random_shuffle_from rnd (Suc k) i xs =
     random_shuffle_from rnd k (Suc i) (swap_at i (rnd i mod (Suc i)) xs)"

definition random_shuffle :: "(nat \<Rightarrow> nat) \<Rightarrow> 'a list \<Rightarrow> 'a list" where
  "random_shuffle rnd xs = random_shuffle_from rnd (length xs - 1) 1 xs"

subsection \<open>\<open>ApproximateBestSubset\<close>\<close>

text \<open>
  The state of the search: the running total and inclusion flags of the current
  repetition, the best total and its flags, and the number of bits drawn so far from the
  \<open>FastRandomContext\<close>, whose bit stream is the function \<open>rb\<close>.
\<close>

record abs_state =
  nTotal :: CAmount
  vfIncluded :: "bool list"
  fReachedTarget :: bool
  nBest :: CAmount
  vfBest :: "bool list"
  nDraws :: nat

definition abs_take :: "CInputCoin list \<Rightarrow> CAmount \<Rightarrow> nat \<Rightarrow> abs_state \<Rightarrow> abs_state" where
  "abs_take vValue nTargetValue i s =
     (let s1 = s\<lparr>nTotal := nTotal s + coin_value (vValue ! i),
                 vfIncluded := (vfIncluded s)[i := True]\<rparr>
      in if nTotal s1 \<ge> nTargetValue
         then (let s2 = s1\<lparr>fReachedTarget := True\<rparr>;
                   s3 = (if nTotal s2 < nBest s2
                         then s2\<lparr>nBest := nTotal s2, vfBest := vfIncluded s2\<rparr> else s2)
               in s3\<lparr>nTotal := nTotal s3 - coin_value (vValue ! i),
                      vfIncluded := (vfIncluded s3)[i := False]\<rparr>)
         else s1)"

definition abs_step ::
  "(nat \<Rightarrow> bool) \<Rightarrow> CInputCoin list \<Rightarrow> CAmount \<Rightarrow> nat \<Rightarrow> nat \<Rightarrow> abs_state \<Rightarrow> abs_state" where
  "abs_step rb vValue nTargetValue nPass i s =
     (if nPass = 0
      then (let s' = s\<lparr>nDraws := Suc (nDraws s)\<rparr>
            in if rb (nDraws s) then abs_take vValue nTargetValue i s' else s')
      else (if \<not> vfIncluded s ! i then abs_take vValue nTargetValue i s else s))"

definition abs_pass ::
  "(nat \<Rightarrow> bool) \<Rightarrow> CInputCoin list \<Rightarrow> CAmount \<Rightarrow> nat \<Rightarrow> abs_state \<Rightarrow> abs_state" where
  "abs_pass rb vValue nTargetValue nPass s =
     fold (abs_step rb vValue nTargetValue nPass) [0..<length vValue] s"

definition abs_rep :: "(nat \<Rightarrow> bool) \<Rightarrow> CInputCoin list \<Rightarrow> CAmount \<Rightarrow> abs_state \<Rightarrow> abs_state" where
  "abs_rep rb vValue nTargetValue s =
     (let s0 = s\<lparr>vfIncluded := replicate (length vValue) False, nTotal := 0,
                 fReachedTarget := False\<rparr>;
          s1 = abs_pass rb vValue nTargetValue 0 s0
      in if fReachedTarget s1 then s1 else abs_pass rb vValue nTargetValue 1 s1)"

fun abs_reps ::
  "(nat \<Rightarrow> bool) \<Rightarrow> CInputCoin list \<Rightarrow> CAmount \<Rightarrow> nat \<Rightarrow> abs_state \<Rightarrow> abs_state" where
  "abs_reps rb vValue nTargetValue 0 s = s"
| "abs_reps rb vValue nTargetValue (Suc k) s =
     (if nBest s = nTargetValue then s
      else abs_reps rb vValue nTargetValue k (abs_rep rb vValue nTargetValue s))"

definition ApproximateBestSubset ::
  "(nat \<Rightarrow> bool) \<Rightarrow> CInputCoin list \<Rightarrow> CAmount \<Rightarrow> CAmount \<Rightarrow> nat \<Rightarrow> bool list \<times> CAmount" where
  "ApproximateBestSubset rb vValue nTotalLower nTargetValue iterations =
     (let s = abs_reps rb vValue nTargetValue iterations
                \<lparr>nTotal = 0, vfIncluded = [], fReachedTarget = False, nBest = nTotalLower,
                 vfBest = replicate (length vValue) True, nDraws = 0\<rparr>
      in (vfBest s, nBest s))"

subsection \<open>\<open>CWallet::SelectCoinsMinConf\<close>\<close>

text \<open>
  What the selector reads from outside the file: the constant \<open>MIN_CHANGE\<close> of the
  header, the mempool's \<open>TransactionWithinChainLimit\<close>, and the three random sources
  (the draws of the shuffle and the bit streams of the two searches).
\<close>

record select_env =
  MIN_CHANGE :: CAmount
  TransactionWithinChainLimit :: "uint256 \<Rightarrow> nat \<Rightarrow> bool"
  shuffle_draws :: "nat \<Rightarrow> nat"
  rand_bits1 :: "nat \<Rightarrow> bool"
  rand_bits2 :: "nat \<Rightarrow> bool"

text \<open>The three filters at the head of the scan loop (each a \<open>continue\<close>).\<close>

definition coin_eligible :: "select_env \<Rightarrow> int \<Rightarrow> int \<Rightarrow> nat \<Rightarrow> COutput \<Rightarrow> bool" where
  "coin_eligible env nConfMine nConfTheirs nMaxAncestors output =
     (fSpendable output
      \<and> \<not> nDepth output < (if tx_fromMe output then nConfMine else nConfTheirs)
      \<and> TransactionWithinChainLimit env (tx_hash output) nMaxAncestors)"

datatype scan_result =
  Exact CInputCoin
| Scanned "CInputCoin list" CAmount "CInputCoin option"

fun scan_coins ::
  "select_env \<Rightarrow> CAmount \<Rightarrow> int \<Rightarrow> int \<Rightarrow> nat \<Rightarrow> COutput list
     \<Rightarrow> CInputCoin list \<Rightarrow> CAmount \<Rightarrow> CInputCoin option \<Rightarrow> scan_result" where
  "scan_coins env nTargetValue nConfMine nConfTheirs nMaxAncestors [] vValue nTotalLower low =
     Scanned vValue nTotalLower low"
| "scan_coins env nTargetValue nConfMine nConfTheirs nMaxAncestors (output # rest)
       vValue nTotalLower low =
     (if \<not> coin_eligible env nConfMine nConfTheirs nMaxAncestors output
      then scan_coins env nTargetValue nConfMine nConfTheirs nMaxAncestors rest
             vValue nTotalLower low
      else (let coin = mk_CInputCoin output in
        if coin_value coin = nTargetValue then Exact coin
        else if coin_value coin < nTargetValue + MIN_CHANGE env
        then scan_coins env nTargetValue nConfMine nConfTheirs nMaxAncestors rest
               (vValue @ [coin]) (nTotalLower + coin_value coin) low
        else if (case low of None \<Rightarrow> True | Some l \<Rightarrow> coin_value coin < coin_value l)
        then scan_coins env nTargetValue nConfMine nConfTheirs nMaxAncestors rest
               vValue nTotalLower (Some coin)
        else scan_coins env nTargetValue nConfMine nConfTheirs nMaxAncestors rest
               vValue nTotalLower low))"

text \<open>The two loops that move coins into the result: all of a vector, or the flagged ones.\<close>

fun insert_all :: "CInputCoin list \<Rightarrow> CInputCoin list \<times> CAmount \<Rightarrow> CInputCoin list \<times> CAmount" where
  "insert_all [] r = r"
| "insert_all (c # cs) (setCoinsRet, nValueRet) =
     insert_all cs (set_insert c setCoinsRet, nValueRet + coin_value c)"

fun insert_best ::
  "CInputCoin list \<Rightarrow> bool list \<Rightarrow> CInputCoin list \<times> CAmount \<Rightarrow> CInputCoin list \<times> CAmount" where
  "insert_best (c # cs) (b # bs) (setCoinsRet, nValueRet) =
     (if b then insert_best cs bs (set_insert c setCoinsRet, nValueRet + coin_value c)
      else insert_best cs bs (setCoinsRet, nValueRet))"
| "insert_best cs bs r = r"

text \<open>
  \<open>std::sort\<close> with \<open>CompareValueOnly\<close> followed by \<open>std::reverse\<close>: descending by value.
\<close>

definition sort_descending :: "CInputCoin list \<Rightarrow> CInputCoin list" where
  "sort_descending vValue = rev (sort_key coin_value vValue)"

definition SelectCoinsMinConf ::
  "select_env \<Rightarrow> CAmount \<Rightarrow> int \<Rightarrow> int \<Rightarrow> nat \<Rightarrow> COutput list
     \<Rightarrow> bool \<times> CInputCoin list \<times> CAmount" where
  "SelectCoinsMinConf env nTargetValue nConfMine nConfTheirs nMaxAncestors vCoins =
     (case scan_coins env nTargetValue nConfMine nConfTheirs nMaxAncestors
             (random_shuffle (shuffle_draws env) vCoins) [] 0 None of
        Exact coin \<Rightarrow> (True, set_insert coin [], 0 + coin_value coin)
      | Scanned vValue nTotalLower coinLowestLarger \<Rightarrow>
          if nTotalLower = nTargetValue
          then (case insert_all vValue ([], 0) of (cs, v) \<Rightarrow> (True, cs, v))
          else if nTotalLower < nTargetValue
          then (case coinLowestLarger of
                  None \<Rightarrow> (False, [], 0)
                | Some l \<Rightarrow> (True, set_insert l [], 0 + coin_value l))
          else
            (let vSorted = sort_descending vValue;
                 (vfBest1, nBest1) =
                    ApproximateBestSubset (rand_bits1 env) vSorted nTotalLower nTargetValue 1000;
                 (vfBest, nBest) =
                    (if nBest1 \<noteq> nTargetValue \<and> nTotalLower \<ge> nTargetValue + MIN_CHANGE env
                     then ApproximateBestSubset (rand_bits2 env) vSorted nTotalLower
                            (nTargetValue + MIN_CHANGE env) 1000
                     else (vfBest1, nBest1))
             in case coinLowestLarger of
                  Some l \<Rightarrow>
                    if (nBest \<noteq> nTargetValue \<and> nBest < nTargetValue + MIN_CHANGE env)
                       \<or> coin_value l \<le> nBest
                    then (True, set_insert l [], 0 + coin_value l)
                    else (case insert_best vSorted vfBest ([], 0) of (cs, v) \<Rightarrow> (True, cs, v))
                | None \<Rightarrow>
                    (case insert_best vSorted vfBest ([], 0) of (cs, v) \<Rightarrow> (True, cs, v))))"

definition flag_sum :: "CInputCoin list \<Rightarrow> bool list \<Rightarrow> CAmount" where
  "flag_sum vValue fl = (\<Sum>i<length vValue. if fl ! i then coin_value (vValue ! i) else 0)"

definition best_ok :: "CInputCoin list \<Rightarrow> CAmount \<Rightarrow> abs_state \<Rightarrow> bool" where
  "best_ok vValue nTargetValue s =
     (length (vfBest s) = length vValue \<and> nBest s = flag_sum vValue (vfBest s)
      \<and> nTargetValue \<le> nBest s)"

definition run_ok :: "CInputCoin list \<Rightarrow> abs_state \<Rightarrow> bool" where
  "run_ok vValue s =
     (length (vfIncluded s) = length vValue \<and> nTotal s = flag_sum vValue (vfIncluded s))"

definition coin_small :: "select_env \<Rightarrow> CAmount \<Rightarrow> int \<Rightarrow> int \<Rightarrow> nat \<Rightarrow> COutput \<Rightarrow> bool" where
  "coin_small env t cm ct ma output =
     (coin_eligible env cm ct ma output \<and> nValue (tx_out output) < t + MIN_CHANGE env)"

definition coin_large :: "select_env \<Rightarrow> CAmount \<Rightarrow> int \<Rightarrow> int \<Rightarrow> nat \<Rightarrow> COutput \<Rightarrow> bool" where
  "coin_large env t cm ct ma output =
     (coin_eligible env cm ct ma output \<and> \<not> nValue (tx_out output) < t + MIN_CHANGE env)"

definition filtered_candidates ::
  "select_env \<Rightarrow> int \<Rightarrow> int \<Rightarrow> nat \<Rightarrow> COutput list \<Rightarrow> COutput list" where
  "filtered_candidates env cm ct ma vCoins = filter (coin_eligible env cm ct ma) vCoins"

definition good_round :: "(nat \<Rightarrow> bool) \<Rightarrow> nat \<Rightarrow> bool" where
  "good_round rb r = (\<not> rb (3 * r) \<or> (rb (3 * r + 1) \<and> rb (3 * r + 2)))"

definition state3 :: "abs_state \<Rightarrow> bool" where
  "state3 s = ((nBest s = 35 \<and> vfBest s = [True, True, True])
             \<or> (nBest s = 20 \<and> vfBest s = [True, False, False]))"

text \<open>
  Concrete inputs for the examples: \<open>cex_env\<close> draws, in every round of the first
  search, "include the first coin, skip the others"; \<open>demo_env\<close> includes every coin.
\<close>

definition demo_env :: select_env where
  "demo_env = \<lparr>MIN_CHANGE = 50, TransactionWithinChainLimit = (\<lambda>h k. True),
     shuffle_draws = (\<lambda>i. i), rand_bits1 = (\<lambda>i. True), rand_bits2 = (\<lambda>i. False)\<rparr>"

definition cex_env :: select_env where
  "cex_env = \<lparr>MIN_CHANGE = 1000000, TransactionWithinChainLimit = (\<lambda>h k. True),
     shuffle_draws = (\<lambda>i. 0), rand_bits1 = (\<lambda>i. i mod 3 = 0), rand_bits2 = (\<lambda>i. False)\<rparr>"

definition cand :: "nat \<Rightarrow> int \<Rightarrow> COutput" where
  "cand h v = \<lparr>tx_hash = h, tx_fromMe = True, tx_out = \<lparr>nValue = v, scriptPubKey = []\<rparr>,
      out_i = 0, nDepth = 6, fSpendable = True\<rparr>"

section \<open>The ledger: wallet records, spend index, chain view\<close>

text \<open>
  A transaction input names the outpoint it spends and carries its signature script.  A
  transaction is identified by \<open>GetHash()\<close> (field \<open>txhash\<close>); \<open>IsCoinBase()\<close>,
  \<open>IsZerocoinSpend()\<close> and \<open>HasWitness()\<close>, which the primitives outside the wallet
  compute, are the fields \<open>coinbase\<close>, \<open>zerocoinSpend\<close> and \<open>witness\<close>.
\<close>

record CTxIn =
  prevout :: COutPoint
  scriptSig :: CScript

record CTransaction =
  txhash :: uint256
  vin :: "CTxIn list"
  vout :: "CTxOut list"
  coinbase :: bool
  zerocoinSpend :: bool
  witness :: bool

text \<open>
  \<open>CWalletTx\<close> (with its base \<open>CMerkleTx\<close>).  Each cached amount is the pair of its
  flag and its value: \<open>DebitCached\<close> is \<open>(fDebitCached, nDebitCached)\<close>, and so on for
  the nine caches that wallet.cpp reads.
\<close>

record CWalletTx =
  tx :: CTransaction
  hashBlock :: uint256
  nIndex :: int
  nOrderPos :: int
  nTimeReceived :: int
  nTimeSmart :: int
  fFromMe :: bool
  fInMempool :: bool
  mapValue :: "(string \<times> string) list"
  vOrderForm :: "(string \<times> string) list"
  strFromAccount :: string
  DebitCached :: "bool \<times> CAmount"
  CreditCached :: "bool \<times> CAmount"
  ImmatureCreditCached :: "bool \<times> CAmount"
  AvailableCreditCached :: "bool \<times> CAmount"
  WatchDebitCached :: "bool \<times> CAmount"
  WatchCreditCached :: "bool \<times> CAmount"
  ImmatureWatchCreditCached :: "bool \<times> CAmount"
  AvailableWatchCreditCached :: "bool \<times> CAmount"
  ChangeCached :: "bool \<times> CAmount"

text \<open>
  The wallet: \<open>mapWallet\<close> (a \<open>std::map\<close>: an association list with unique keys, in
  key order), \<open>mapTxSpends\<close> (a \<open>std::multimap\<close> from outpoints to spender ids: a
  list of pairs in key order, equal keys in insertion order), \<open>wtxOrdered\<close> (a
  multimap from order positions to either a wallet transaction, named by its id, or an
  accounting entry, of which the time is kept) and \<open>nOrderPosNext\<close>.
\<close>

type_synonym TxSpends = "(COutPoint \<times> uint256) list"

record CWallet =
  mapWallet :: "(uint256 \<times> CWalletTx) list"
  mapTxSpends :: TxSpends
  wtxOrdered :: "(int \<times> (uint256 + int)) list"
  nOrderPosNext :: int

datatype wallet_error =
  AssertionFailed
| ValueOutOfRange
| OutOfBoundsAccess

text \<open>
  What the wallet reads of the chain and the mempool: \<open>mapBlockIndex\<close> gives, for a
  known block hash, the height and time of its index entry; \<open>chainActive.Contains\<close>
  and \<open>chainActive.Height()\<close>; \<open>mempool.exists\<close>; the InstantSend lock test with
  \<open>nInstantSendDepth\<close>; and \<open>enableIX\<close>, the argument with which the header's
  argument-less \<open>GetDepthInMainChain()\<close> calls the overload defined in wallet.cpp.
\<close>

record chain_view =
  mapBlockIndex :: "uint256 \<Rightarrow> (int \<times> int) option"
  chainActive_Contains :: "uint256 \<Rightarrow> bool"
  chainActive_Height :: int
  mempool_exists :: "uint256 \<Rightarrow> bool"
  IsLockedInstantSendTransaction :: "uint256 \<Rightarrow> bool"
  nInstantSendDepth :: int
  enableIX :: bool

definition ABANDON_HASH :: uint256 where
  "ABANDON_HASH = 1"

text \<open>
  The inline accessors of \<open>CMerkleTx\<close>: the abandoned state is the block hash
  \<open>ABANDON_HASH\<close> (wallet.cpp, line 73), an unset block hash is null or that constant.
\<close>

definition hashUnset :: "CWalletTx \<Rightarrow> bool" where
  "hashUnset wtx = (hashBlock wtx = 0 \<or> hashBlock wtx = ABANDON_HASH)"

definition isAbandoned :: "CWalletTx \<Rightarrow> bool" where
  "isAbandoned wtx = (hashBlock wtx = ABANDON_HASH)"

definition setAbandoned :: "CWalletTx \<Rightarrow> CWalletTx" where
  "setAbandoned wtx = wtx\<lparr>hashBlock := ABANDON_HASH\<rparr>"

definition InMempool :: "CWalletTx \<Rightarrow> bool" where
  "InMempool wtx = fInMempool wtx"

text \<open>
  Modelled from the spec: \<open>CWalletTx::MarkDirty\<close> is defined in the header, which is
  not part of the sources; the spec's record has "cached credit/debit amounts with an
  explicit dirty bit" that every mutation sets.  Marking dirty resets the flag of every
  cache and leaves the stored values.
\<close>

definition MarkDirty :: "CWalletTx \<Rightarrow> CWalletTx" where
  "MarkDirty wtx = wtx\<lparr>
     DebitCached := (False, snd (DebitCached wtx)),
     CreditCached := (False, snd (CreditCached wtx)),
     ImmatureCreditCached := (False, snd (ImmatureCreditCached wtx)),
     AvailableCreditCached := (False, snd (AvailableCreditCached wtx)),
     WatchDebitCached := (False, snd (WatchDebitCached wtx)),
     WatchCreditCached := (False, snd (WatchCreditCached wtx)),
     ImmatureWatchCreditCached := (False, snd (ImmatureWatchCreditCached wtx)),
     AvailableWatchCreditCached := (False, snd (AvailableWatchCreditCached wtx)),
     ChangeCached := (False, snd (ChangeCached wtx))\<rparr>"

text \<open>\<open>CMerkleTx::GetDepthInMainChain(pindexRet, enableIX)\<close>.\<close>

definition GetDepthInMainChain :: "chain_view \<Rightarrow> CWalletTx \<Rightarrow> int" where
  "GetDepthInMainChain cv wtx =
     (let early_nResult =
        (if hashUnset wtx then Inr 0
         else (case mapBlockIndex cv (hashBlock wtx) of
                 None \<Rightarrow> Inr 0
               | Some (nHeight, nTime) \<Rightarrow>
                   if \<not> chainActive_Contains cv (hashBlock wtx) then Inr 0
                   else (let nResult = (if nIndex wtx = -1 then -1 else 1)
                                        * (chainActive_Height cv - nHeight + 1)
                         in if nResult = 0 \<and> \<not> mempool_exists cv (txhash (tx wtx))
                            then Inl (-1) else Inr nResult)))
      in case early_nResult of
           Inl r \<Rightarrow> r
         | Inr nResult \<Rightarrow>
             if enableIX cv \<and> nResult < 6
                \<and> IsLockedInstantSendTransaction cv (txhash (tx wtx))
             then nInstantSendDepth cv + nResult
             else nResult)"

subsection \<open>\<open>std::map\<close>, \<open>std::multimap\<close> and \<open>std::set<uint256>\<close>\<close>

definition map_find :: "(uint256 \<times> CWalletTx) list \<Rightarrow> uint256 \<Rightarrow> CWalletTx option" where
  "map_find m h = map_of m h"

text \<open>Writing through a reference to a record that is present.\<close>

fun assign :: "uint256 \<Rightarrow> CWalletTx \<Rightarrow> (uint256 \<times> CWalletTx) list \<Rightarrow> (uint256 \<times> CWalletTx) list" where
  "assign h wtx [] = []"
| "assign h wtx ((k, v) # m) = (if k = h then (k, wtx) # m else (k, v) # assign h wtx m)"

text \<open>Changing in place, through a reference, the record stored under a key.\<close>

fun modify :: "uint256 \<Rightarrow> (CWalletTx \<Rightarrow> CWalletTx) \<Rightarrow> (uint256 \<times> CWalletTx) list \<Rightarrow> (uint256 \<times> CWalletTx) list" where
  "modify h f [] = []"
| "modify h f ((k, v) # m) = (if k = h then (k, f v) # m else (k, v) # modify h f m)"

text \<open>\<open>std::map::insert\<close> of a key that is absent, at its place in key order.\<close>

fun map_insert :: "uint256 \<Rightarrow> CWalletTx \<Rightarrow> (uint256 \<times> CWalletTx) list \<Rightarrow> (uint256 \<times> CWalletTx) list" where
  "map_insert h wtx [] = [(h, wtx)]"
| "map_insert h wtx ((k, v) # m) =
     (if h < k then (h, wtx) # (k, v) # m else (k, v) # map_insert h wtx m)"

text \<open>\<open>std::multimap::insert\<close>: after the last entry whose key is not greater.\<close>

fun multimap_insert :: "COutPoint \<times> uint256 \<Rightarrow> TxSpends \<Rightarrow> TxSpends" where
  "multimap_insert e [] = [e]"
| "multimap_insert e (d # ds) =
     (if outpoint_less (fst e) (fst d) then e # d # ds else d # multimap_insert e ds)"

definition equal_range :: "TxSpends \<Rightarrow> COutPoint \<Rightarrow> TxSpends" where
  "equal_range m op = filter (\<lambda>e. fst e = op) m"

definition multimap_count :: "TxSpends \<Rightarrow> COutPoint \<Rightarrow> nat" where
  "multimap_count m op = length (equal_range m op)"

text \<open>
  The loop \<open>iter = m.lower_bound(COutPoint(from, 0)); while (iter != m.end() &&
  iter->first.hash == now) ... iter++\<close>: the entries visited.
\<close>

definition spends_from :: "TxSpends \<Rightarrow> uint256 \<Rightarrow> uint256 \<Rightarrow> TxSpends" where
  "spends_from m from now =
     takeWhile (\<lambda>e. hash (fst e) = now)
       (dropWhile (\<lambda>e. outpoint_less (fst e) \<lparr>hash = from, n_out = 0\<rparr>) m)"

text \<open>
  A \<open>std::set<uint256>\<close> is a strictly increasing list: \<open>insert\<close> is
  \<open>insort_insert\<close>, \<open>*s.begin()\<close> is the head, \<open>erase\<close> removes the key.
\<close>

definition enqueue_spenders :: "TxSpends \<Rightarrow> uint256 list \<Rightarrow> uint256 list \<Rightarrow> uint256 list" where
  "enqueue_spenders es done todo =
     fold (\<lambda>e t. if snd e \<in> set done then t else insort_insert (snd e) t) es todo"

text \<open>The loop that marks dirty every tracked parent of a transaction's inputs.\<close>

definition mark_input_dirty :: "CTxIn \<Rightarrow> (uint256 \<times> CWalletTx) list \<Rightarrow> (uint256 \<times> CWalletTx) list" where
  "mark_input_dirty txin mw =
     (case map_find mw (hash (prevout txin)) of
        None \<Rightarrow> mw
      | Some parent \<Rightarrow> assign (hash (prevout txin)) (MarkDirty parent) mw)"

definition mark_inputs_dirty :: "CTxIn list \<Rightarrow> (uint256 \<times> CWalletTx) list \<Rightarrow> (uint256 \<times> CWalletTx) list" where
  "mark_inputs_dirty ins m = fold mark_input_dirty ins m"

subsection \<open>\<open>CWallet::GetConflicts\<close> and \<open>CWalletTx::GetConflicts\<close>\<close>

definition insert_spenders :: "TxSpends \<Rightarrow> uint256 list \<Rightarrow> uint256 list" where
  "insert_spenders rng result = fold (\<lambda>e r. insort_insert (snd e) r) rng result"

definition conflicts_of_input :: "TxSpends \<Rightarrow> CTxIn \<Rightarrow> uint256 list \<Rightarrow> uint256 list" where
  "conflicts_of_input spends txin result =
     (if multimap_count spends (prevout txin) \<le> 1 then result
      else insert_spenders (equal_range spends (prevout txin)) result)"

definition GetConflicts :: "CWallet \<Rightarrow> uint256 \<Rightarrow> uint256 list" where
  "GetConflicts w txid =
     (case map_find (mapWallet w) txid of
        None \<Rightarrow> []
      | Some wtx \<Rightarrow> fold (conflicts_of_input (mapTxSpends w)) (vin (tx wtx)) [])"

text \<open>The record's own query, with \<open>pwallet\<close> bound to the wallet \<open>w\<close>.\<close>

definition CWalletTx_GetConflicts :: "CWallet \<Rightarrow> CWalletTx \<Rightarrow> uint256 list" where
  "CWalletTx_GetConflicts w wtx =
     (let myHash = txhash (tx wtx) in removeAll myHash (GetConflicts w myHash))"

subsection \<open>\<open>CWallet::IsSpent\<close>\<close>

definition IsSpent :: "chain_view \<Rightarrow> CWallet \<Rightarrow> uint256 \<Rightarrow> nat \<Rightarrow> bool" where
  "IsSpent cv w h i =
     list_ex (\<lambda>e. case map_find (mapWallet w) (snd e) of
                     None \<Rightarrow> False
                   | Some spender \<Rightarrow>
                       (let depth = GetDepthInMainChain cv spender
                        in depth > 0 \<or> (depth = 0 \<and> \<not> isAbandoned spender)))
             (equal_range (mapTxSpends w) \<lparr>hash = h, n_out = i\<rparr>)"

subsection \<open>\<open>CWallet::MarkConflicted\<close>\<close>

definition conflictconfirms_of :: "chain_view \<Rightarrow> uint256 \<Rightarrow> int" where
  "conflictconfirms_of cv hashBlk =
     (case mapBlockIndex cv hashBlk of
        None \<Rightarrow> 0
      | Some (nHeight, nTime) \<Rightarrow>
          if chainActive_Contains cv hashBlk
          then - (chainActive_Height cv - nHeight + 1) else 0)"

function MarkConflicted_loop ::
  "chain_view \<Rightarrow> uint256 \<Rightarrow> int \<Rightarrow> TxSpends \<Rightarrow> uint256 list \<Rightarrow> uint256 list
     \<Rightarrow> (uint256 \<times> CWalletTx) list \<Rightarrow> wallet_error + (uint256 \<times> CWalletTx) list" where
  "MarkConflicted_loop cv hashBlk conflictconfirms spends todo done mw =
     (case todo of
        [] \<Rightarrow> Inr mw
      | now # rest \<Rightarrow>
          (let todo1 = removeAll now todo;
               done1 = insort_insert now done
           in case map_find mw now of
                None \<Rightarrow> Inl AssertionFailed
              | Some wtx \<Rightarrow>
                  if conflictconfirms < GetDepthInMainChain cv wtx
                  then (let wtx1 = MarkDirty (wtx\<lparr>nIndex := -1, hashBlock := hashBlk\<rparr>);
                            mw1 = assign now wtx1 mw;
                            todo2 = enqueue_spenders (spends_from spends now now) done1 todo1;
                            mw2 = mark_inputs_dirty (vin (tx wtx1)) mw1
                        in MarkConflicted_loop cv hashBlk conflictconfirms spends todo2 done1 mw2)
                  else MarkConflicted_loop cv hashBlk conflictconfirms spends todo1 done1 mw))"
  by pat_completeness auto


text \<open>
  Termination of the worklist loops: every pass moves the transaction taken from \<open>todo\<close>
  into \<open>done\<close>, and nothing in \<open>done\<close> is queued again; the ids that can ever be
  queued are those in \<open>todo\<close>, in \<open>done\<close> and the spenders of the index.
\<close>

lemma set_enqueue_spenders:
  "set (enqueue_spenders es done todo) = set todo \<union> (snd ` set es - set done)"
  unfolding enqueue_spenders_def
  by (induction es arbitrary: todo) (auto simp: set_insort_insert)

definition loop_universe :: "TxSpends \<Rightarrow> uint256 list \<Rightarrow> uint256 list \<Rightarrow> uint256 set" where
  "loop_universe spends todo done = set todo \<union> set done \<union> snd ` set spends"

lemma spends_from_subset: "set (spends_from spends a b) \<subseteq> set spends"
  unfolding spends_from_def
  by (meson set_takeWhileD set_dropWhileD subsetI)

lemma worklist_measure_decreases:
  assumes now: "now \<in> set todo"
    and d: "set done' = insert now (set done)"
    and t: "set todo' \<subseteq> (set todo - {now}) \<union> (snd ` set spends - set done')"
  shows "card (loop_universe spends todo' done' - set done')
           < card (loop_universe spends todo done - set done)
         \<or> (card (loop_universe spends todo' done' - set done')
              = card (loop_universe spends todo done - set done)
            \<and> card (set todo' \<inter> set done') < card (set todo \<inter> set done))"
proof -
  have fin: "finite (loop_universe spends todo done)" by (simp add: loop_universe_def)
  have sub: "loop_universe spends todo' done' \<subseteq> loop_universe spends todo done"
    using now d t by (auto simp: loop_universe_def)
  show ?thesis
  proof (cases "now \<in> set done")
    case True
    then have e: "set done' = set done" using d by auto
    have "set todo' \<inter> set done' \<subseteq> (set todo \<inter> set done) - {now}"
      using t e by auto
    moreover have "now \<in> set todo \<inter> set done" using True now by simp
    ultimately have "set todo' \<inter> set done' \<subset> set todo \<inter> set done" by blast
    then have c2: "card (set todo' \<inter> set done') < card (set todo \<inter> set done)"
      by (simp add: psubset_card_mono)
    have "loop_universe spends todo' done' - set done' \<subseteq> loop_universe spends todo done - set done"
      using sub e by auto
    then have "card (loop_universe spends todo' done' - set done')
                 \<le> card (loop_universe spends todo done - set done)"
      using fin by (simp add: card_mono)
    with c2 show ?thesis by auto
  next
    case False
    have "loop_universe spends todo' done' - set done'
            \<subseteq> (loop_universe spends todo done - set done) - {now}"
      using sub d by auto
    moreover have "now \<in> loop_universe spends todo done - set done"
      using False now by (simp add: loop_universe_def)
    ultimately have "loop_universe spends todo' done' - set done'
            \<subset> loop_universe spends todo done - set done" by blast
    then have "card (loop_universe spends todo' done' - set done')
                 < card (loop_universe spends todo done - set done)"
      using fin by (simp add: psubset_card_mono)
    then show ?thesis by simp
  qed
qed

termination MarkConflicted_loop
  apply (relation "measures [\<lambda>(cv, hashBlk, cc, spends, todo, done, mw).
                             card (loop_universe spends todo done - set done),
                           \<lambda>(cv, hashBlk, cc, spends, todo, done, mw).
                             card (set todo \<inter> set done)]")
  subgoal by simp
  subgoal for cv hashBlk cc spends todo dn mw now rest todo1 done1 wtx wtx1 mw1 todo2 mw2
    using spends_from_subset[of spends now now]
      worklist_measure_decreases[of now todo done1 dn todo2 spends]
    by (auto simp: set_insort_insert set_enqueue_spenders)
  subgoal for cv hashBlk cc spends todo dn mw now rest todo1 done1 wtx
    using worklist_measure_decreases[of now todo done1 dn todo1 spends]
    by (auto simp: set_insort_insert)
  done

definition MarkConflicted :: "chain_view \<Rightarrow> CWallet \<Rightarrow> uint256 \<Rightarrow> uint256 \<Rightarrow> wallet_error + CWallet" where
  "MarkConflicted cv w hashBlk hashTx =
     (let conflictconfirms = conflictconfirms_of cv hashBlk
      in if conflictconfirms \<ge> 0 then Inr w
         else (case MarkConflicted_loop cv hashBlk conflictconfirms (mapTxSpends w)
                      [hashTx] [] (mapWallet w) of
                 Inl e \<Rightarrow> Inl e
               | Inr mw \<Rightarrow> Inr (w\<lparr>mapWallet := mw\<rparr>)))"

subsection \<open>\<open>CWallet::AbandonTransaction\<close>\<close>

text \<open>
  The loop over the spenders starts at \<open>lower_bound(COutPoint(hashTx, 0))\<close>, the
  transaction the call was made for, and runs while the key's hash is \<open>now\<close>.
\<close>

function AbandonTransaction_loop ::
  "chain_view \<Rightarrow> uint256 \<Rightarrow> TxSpends \<Rightarrow> uint256 list \<Rightarrow> uint256 list
     \<Rightarrow> (uint256 \<times> CWalletTx) list \<Rightarrow> wallet_error + (uint256 \<times> CWalletTx) list" where
  "AbandonTransaction_loop cv hashTx spends todo done mw =
     (case todo of
        [] \<Rightarrow> Inr mw
      | now # rest \<Rightarrow>
          (let todo1 = removeAll now todo;
               done1 = insort_insert now done
           in case map_find mw now of
                None \<Rightarrow> Inl AssertionFailed
              | Some wtx \<Rightarrow>
                  (let currentconfirm = GetDepthInMainChain cv wtx
                   in if \<not> currentconfirm \<le> 0 then Inl AssertionFailed
                      else if currentconfirm = 0 \<and> \<not> isAbandoned wtx
                      then (if InMempool wtx then Inl AssertionFailed
                            else (let wtx1 = MarkDirty (setAbandoned (wtx\<lparr>nIndex := -1\<rparr>));
                                      mw1 = assign now wtx1 mw;
                                      todo2 = enqueue_spenders (spends_from spends hashTx now)
                                                done1 todo1;
                                      mw2 = mark_inputs_dirty (vin (tx wtx1)) mw1
                                  in AbandonTransaction_loop cv hashTx spends todo2 done1 mw2))
                      else AbandonTransaction_loop cv hashTx spends todo1 done1 mw)))"
  by pat_completeness auto

termination AbandonTransaction_loop
  apply (relation "measures [\<lambda>(cv, hashTx, spends, todo, done, mw).
                             card (loop_universe spends todo done - set done),
                           \<lambda>(cv, hashTx, spends, todo, done, mw).
                             card (set todo \<inter> set done)]")
  subgoal by simp
  subgoal for cv hashTx spends todo dn mw now rest todo1 done1 wtx cur wtx1 mw1 todo2 mw2
    using spends_from_subset[of spends hashTx now]
      worklist_measure_decreases[of now todo done1 dn todo2 spends]
    by (auto simp: set_insort_insert set_enqueue_spenders)
  subgoal for cv hashTx spends todo dn mw now rest todo1 done1 wtx
    using worklist_measure_decreases[of now todo done1 dn todo1 spends]
    by (auto simp: set_insort_insert)
  done

definition AbandonTransaction ::
  "chain_view \<Rightarrow> CWallet \<Rightarrow> uint256 \<Rightarrow> wallet_error + (bool \<times> CWallet)" where
  "AbandonTransaction cv w hashTx =
     (case map_find (mapWallet w) hashTx of
        None \<Rightarrow> Inl AssertionFailed
      | Some origtx \<Rightarrow>
          if GetDepthInMainChain cv origtx > 0 \<or> InMempool origtx then Inr (False, w)
          else (case AbandonTransaction_loop cv hashTx (mapTxSpends w) [hashTx] []
                       (mapWallet w) of
                  Inl e \<Rightarrow> Inl e
                | Inr mw \<Rightarrow> Inr (True, w\<lparr>mapWallet := mw\<rparr>)))"

subsection \<open>Concrete wallets for the examples\<close>

definition example_wtx :: "uint256 \<Rightarrow> CTxIn list \<Rightarrow> CTxOut list \<Rightarrow> CWalletTx" where
  "example_wtx h ins outs =
     \<lparr>tx = \<lparr>txhash = h, vin = ins, vout = outs, coinbase = False, zerocoinSpend = False,
             witness = False\<rparr>,
      hashBlock = 0, nIndex = -1, nOrderPos = 0, nTimeReceived = 0, nTimeSmart = 0,
      fFromMe = True, fInMempool = False, mapValue = [], vOrderForm = [], strFromAccount = [],
      DebitCached = (False, 0), CreditCached = (False, 0), ImmatureCreditCached = (False, 0),
      AvailableCreditCached = (False, 0), WatchDebitCached = (False, 0),
      WatchCreditCached = (False, 0), ImmatureWatchCreditCached = (False, 0),
      AvailableWatchCreditCached = (False, 0), ChangeCached = (False, 0)\<rparr>"

definition spend_of :: "uint256 \<Rightarrow> nat \<Rightarrow> CTxIn" where
  "spend_of h i = \<lparr>prevout = \<lparr>hash = h, n_out = i\<rparr>, scriptSig = []\<rparr>"

definition pay :: "CAmount \<Rightarrow> CTxOut" where
  "pay v = \<lparr>nValue = v, scriptPubKey = []\<rparr>"

text \<open>A chain of height 100 whose block 500 is the tip; nothing is locked by InstantSend.\<close>

definition example_chain :: chain_view where
  "example_chain =
     \<lparr>mapBlockIndex = (\<lambda>h. if h = 500 then Some (100, 1000) else
                             if h = 495 then Some (95, 900) else None),
      chainActive_Contains = (\<lambda>h. h = 500 \<or> h = 495), chainActive_Height = 100,
      mempool_exists = (\<lambda>h. False), IsLockedInstantSendTransaction = (\<lambda>h. False),
      nInstantSendDepth = 5, enableIX = True\<rparr>"

text \<open>Transactions 11 and 12 both spend output 0 of transaction 9.\<close>

definition conflict_wallet :: CWallet where
  "conflict_wallet =
     \<lparr>mapWallet = [(11, example_wtx 11 [spend_of 9 0] [pay 5]),
                   (12, example_wtx 12 [spend_of 9 0] [pay 4])],
      mapTxSpends = [(\<lparr>hash = 9, n_out = 0\<rparr>, 11), (\<lparr>hash = 9, n_out = 0\<rparr>, 12)],
      wtxOrdered = [(0, Inl 11), (1, Inl 12)],
      nOrderPosNext = 2\<rparr>"

text \<open>Transaction 21 is in the mempool; transaction 22 is confirmed in the tip.\<close>

definition busy_wallet :: CWallet where
  "busy_wallet =
     \<lparr>mapWallet = [(21, (example_wtx 21 [spend_of 9 0] [pay 5])\<lparr>fInMempool := True\<rparr>),
                   (22, (example_wtx 22 [spend_of 9 1] [pay 4])\<lparr>hashBlock := 500, nIndex := 3\<rparr>)],
      mapTxSpends = [(\<lparr>hash = 9, n_out = 0\<rparr>, 21), (\<lparr>hash = 9, n_out = 1\<rparr>, 22)],
      wtxOrdered = [(0, Inl 21), (1, Inl 22)],
      nOrderPosNext = 2\<rparr>"

subsection \<open>\<open>CWallet::AddToWallet\<close> and what it calls\<close>

text \<open>
  What \<open>AddToWallet\<close> reads from outside: the adjusted time, the result of the
  database write, the record \<open>mapWallet[h]\<close> creates for a missing key, and whether the
  header's \<open>BindWallet\<close>, besides setting the back pointer, marks the record dirty.
\<close>

record add_env =
  GetAdjustedTime :: int
  WriteTx_ok :: bool
  default_CWalletTx :: CWalletTx
  BindWallet_marks_dirty :: bool

definition BindWallet :: "add_env \<Rightarrow> CWalletTx \<Rightarrow> CWalletTx" where
  "BindWallet env wtx = (if BindWallet_marks_dirty env then MarkDirty wtx else wtx)"

text \<open>\<open>mapWallet[h]\<close>: the record stored under \<open>h\<close>, created first when there is none.\<close>

definition map_subscript ::
  "CWalletTx \<Rightarrow> uint256 \<Rightarrow> (uint256 \<times> CWalletTx) list \<Rightarrow> CWalletTx \<times> (uint256 \<times> CWalletTx) list" where
  "map_subscript dflt h m =
     (case map_find m h of
        Some wtx \<Rightarrow> (wtx, m)
      | None \<Rightarrow> (dflt, map_insert h dflt m))"

text \<open>
  \<open>CWalletTx::IsEquivalentTo\<close>: the two transactions agree once the signature scripts
  of their inputs are blanked.
\<close>

definition blank_scriptSigs :: "CTransaction \<Rightarrow> CTransaction" where
  "blank_scriptSigs t = t\<lparr>vin := map (\<lambda>txin. txin\<lparr>scriptSig := []\<rparr>) (vin t), txhash := 0\<rparr>"

definition IsEquivalentTo :: "CWalletTx \<Rightarrow> CWalletTx \<Rightarrow> bool" where
  "IsEquivalentTo a b = (blank_scriptSigs (tx a) = blank_scriptSigs (tx b))"

text \<open>
  \<open>CWallet::SyncMetaData\<close>.  The first loop finds the record of least \<open>nOrderPos\<close>
  (the pointer \<open>copyFrom\<close> is the key of that record); the second copies its metadata
  to every equivalent record of the range.
\<close>

definition INT_MAX :: int where
  "INT_MAX = 2147483647"

definition sync_oldest_step ::
  "CWalletTx \<Rightarrow> uint256 \<Rightarrow> int \<times> uint256 option \<times> (uint256 \<times> CWalletTx) list
     \<Rightarrow> int \<times> uint256 option \<times> (uint256 \<times> CWalletTx) list" where
  "sync_oldest_step dflt h st =
     (case st of (nMinOrderPos, copyFrom, mw) \<Rightarrow>
        (case map_subscript dflt h mw of
           (wtx, mw1) \<Rightarrow>
             if nOrderPos wtx < nMinOrderPos then (nOrderPos wtx, Some h, mw1)
             else (nMinOrderPos, copyFrom, mw1)))"

definition sync_find_oldest ::
  "CWalletTx \<Rightarrow> uint256 list \<Rightarrow> int \<times> uint256 option \<times> (uint256 \<times> CWalletTx) list
     \<Rightarrow> int \<times> uint256 option \<times> (uint256 \<times> CWalletTx) list" where
  "sync_find_oldest dflt ids st = fold (sync_oldest_step dflt) ids st"

definition sync_copy_step ::
  "CWalletTx \<Rightarrow> uint256 \<Rightarrow> uint256 \<Rightarrow> (uint256 \<times> CWalletTx) list \<Rightarrow> (uint256 \<times> CWalletTx) list" where
  "sync_copy_step dflt fromKey h mw =
     (case map_subscript dflt h mw of
        (copyTo, mw1) \<Rightarrow>
          if fromKey = h then mw1
          else (case map_find mw1 fromKey of
                  None \<Rightarrow> mw1
                | Some copyFrom \<Rightarrow>
                    if \<not> IsEquivalentTo copyFrom copyTo then mw1
                    else assign h (copyTo\<lparr>mapValue := mapValue copyFrom,
                                           vOrderForm := vOrderForm copyFrom,
                                           nTimeSmart := nTimeSmart copyFrom,
                                           fFromMe := fFromMe copyFrom,
                                           strFromAccount := strFromAccount copyFrom\<rparr>)
                           mw1))"

definition sync_copy ::
  "CWalletTx \<Rightarrow> uint256 \<Rightarrow> uint256 list \<Rightarrow> (uint256 \<times> CWalletTx) list \<Rightarrow> (uint256 \<times> CWalletTx) list" where
  "sync_copy dflt fromKey ids m = fold (sync_copy_step dflt fromKey) ids m"

definition SyncMetaData ::
  "CWalletTx \<Rightarrow> TxSpends \<Rightarrow> (uint256 \<times> CWalletTx) list
     \<Rightarrow> wallet_error + (uint256 \<times> CWalletTx) list" where
  "SyncMetaData dflt rng m =
     (case sync_find_oldest dflt (map snd rng) (INT_MAX, None, m) of
        (nMinOrderPos, None, mw) \<Rightarrow> Inl AssertionFailed
      | (nMinOrderPos, Some fromKey, mw) \<Rightarrow> Inr (sync_copy dflt fromKey (map snd rng) mw))"

text \<open>\<open>CWallet::AddToSpends(outpoint, wtxid)\<close> and \<open>CWallet::AddToSpends(wtxid)\<close>.\<close>

definition AddToSpends_outpoint ::
  "CWalletTx \<Rightarrow> COutPoint \<Rightarrow> uint256 \<Rightarrow> CWallet \<Rightarrow> wallet_error + CWallet" where
  "AddToSpends_outpoint dflt op wtxid w =
     (let spends = multimap_insert (op, wtxid) (mapTxSpends w)
      in case SyncMetaData dflt (equal_range spends op) (mapWallet w) of
           Inl e \<Rightarrow> Inl e
         | Inr mw \<Rightarrow> Inr (w\<lparr>mapWallet := mw, mapTxSpends := spends\<rparr>))"

fun AddToSpends_inputs ::
  "CWalletTx \<Rightarrow> CTxIn list \<Rightarrow> uint256 \<Rightarrow> CWallet \<Rightarrow> wallet_error + CWallet" where
  "AddToSpends_inputs dflt [] wtxid w = Inr w"
| "AddToSpends_inputs dflt (txin # rest) wtxid w =
     (case AddToSpends_outpoint dflt (prevout txin) wtxid w of
        Inl e \<Rightarrow> Inl e
      | Inr w1 \<Rightarrow> AddToSpends_inputs dflt rest wtxid w1)"

definition AddToSpends :: "CWalletTx \<Rightarrow> uint256 \<Rightarrow> CWallet \<Rightarrow> wallet_error + CWallet" where
  "AddToSpends dflt wtxid w =
     (case map_find (mapWallet w) wtxid of
        None \<Rightarrow> Inl AssertionFailed
      | Some thisTx \<Rightarrow>
          if coinbase (tx thisTx) \<or> zerocoinSpend (tx thisTx) then Inr w
          else AddToSpends_inputs dflt (vin (tx thisTx)) wtxid w)"

text \<open>
  \<open>CWallet::ComputeTimeSmart\<close>.  The scan runs over \<open>wtxOrdered\<close> from the back,
  skips the record itself, and stops at the first entry whose smart time is tolerated; it
  yields \<open>(latestEntry, latestNow)\<close>.  The result is an \<open>unsigned int\<close>.
\<close>

fun latest_entry ::
  "(uint256 \<times> CWalletTx) list \<Rightarrow> uint256 \<Rightarrow> int \<Rightarrow> int \<Rightarrow> (int \<times> (uint256 + int)) list
     \<Rightarrow> int \<times> int" where
  "latest_entry mw self latestTolerated latestNow [] = (0, latestNow)"
| "latest_entry mw self latestTolerated latestNow ((pos, entry) # rest) =
     (if entry = Inl self then latest_entry mw self latestTolerated latestNow rest
      else (let nSmartTime =
                  (case entry of
                     Inl h \<Rightarrow> (case map_find mw h of
                                None \<Rightarrow> 0
                              | Some pwtx \<Rightarrow> if nTimeSmart pwtx = 0 then nTimeReceived pwtx
                                            else nTimeSmart pwtx)
                   | Inr nTime \<Rightarrow> nTime)
            in if nSmartTime \<le> latestTolerated
               then (nSmartTime, if nSmartTime > latestNow then nSmartTime else latestNow)
               else latest_entry mw self latestTolerated latestNow rest))"

definition ComputeTimeSmart :: "chain_view \<Rightarrow> CWallet \<Rightarrow> CWalletTx \<Rightarrow> int" where
  "ComputeTimeSmart cv w wtx =
     (if \<not> hashUnset wtx
      then (case mapBlockIndex cv (hashBlock wtx) of
              Some (nHeight, blocktime) \<Rightarrow>
                (case latest_entry (mapWallet w) (txhash (tx wtx)) (nTimeReceived wtx + 300)
                        (nTimeReceived wtx) (rev (wtxOrdered w)) of
                   (latestEntry, latestNow) \<Rightarrow>
                     (max latestEntry (min blocktime latestNow)) mod 2 ^ 32)
            | None \<Rightarrow> nTimeReceived wtx mod 2 ^ 32)
      else nTimeReceived wtx mod 2 ^ 32)"

text \<open>\<open>wtxOrdered.insert\<close>: a multimap keyed by the order position.\<close>

fun ordered_insert ::
  "int \<times> (uint256 + int) \<Rightarrow> (int \<times> (uint256 + int)) list \<Rightarrow> (int \<times> (uint256 + int)) list" where
  "ordered_insert e [] = [e]"
| "ordered_insert e (d # ds) =
     (if fst e < fst d then e # d # ds else d # ordered_insert e ds)"

text \<open>
  The merge of an observation \<open>wtxIn\<close> into the record \<open>wtx\<close> already stored: the new
  record and \<open>fUpdated\<close>.
\<close>

definition merge_hashBlock :: "CWalletTx \<Rightarrow> CWalletTx \<times> bool \<Rightarrow> CWalletTx \<times> bool" where
  "merge_hashBlock wtxIn st =
     (case st of (wtx, fUpdated) \<Rightarrow>
        if \<not> hashUnset wtxIn \<and> hashBlock wtxIn \<noteq> hashBlock wtx
        then (wtx\<lparr>hashBlock := hashBlock wtxIn\<rparr>, True) else (wtx, fUpdated))"

definition merge_unabandon :: "CWalletTx \<Rightarrow> CWalletTx \<times> bool \<Rightarrow> CWalletTx \<times> bool" where
  "merge_unabandon wtxIn st =
     (case st of (wtx, fUpdated) \<Rightarrow>
        if hashBlock wtxIn = 0 \<and> isAbandoned wtx
        then (wtx\<lparr>hashBlock := hashBlock wtxIn\<rparr>, True) else (wtx, fUpdated))"

definition merge_nIndex :: "CWalletTx \<Rightarrow> CWalletTx \<times> bool \<Rightarrow> CWalletTx \<times> bool" where
  "merge_nIndex wtxIn st =
     (case st of (wtx, fUpdated) \<Rightarrow>
        if nIndex wtxIn \<noteq> -1 \<and> nIndex wtxIn \<noteq> nIndex wtx
        then (wtx\<lparr>nIndex := nIndex wtxIn\<rparr>, True) else (wtx, fUpdated))"

definition merge_fFromMe :: "CWalletTx \<Rightarrow> CWalletTx \<times> bool \<Rightarrow> CWalletTx \<times> bool" where
  "merge_fFromMe wtxIn st =
     (case st of (wtx, fUpdated) \<Rightarrow>
        if fFromMe wtxIn \<and> fFromMe wtxIn \<noteq> fFromMe wtx
        then (wtx\<lparr>fFromMe := fFromMe wtxIn\<rparr>, True) else (wtx, fUpdated))"

definition merge_witness :: "CWalletTx \<Rightarrow> CWalletTx \<times> bool \<Rightarrow> CWalletTx \<times> bool" where
  "merge_witness wtxIn st =
     (case st of (wtx, fUpdated) \<Rightarrow>
        if witness (tx wtxIn) \<and> \<not> witness (tx wtx)
        then (wtx\<lparr>tx := tx wtxIn\<rparr>, True) else (wtx, fUpdated))"

definition merge_into :: "CWalletTx \<Rightarrow> CWalletTx \<Rightarrow> CWalletTx \<times> bool" where
  "merge_into wtxIn wtx =
     merge_witness wtxIn (merge_fFromMe wtxIn (merge_nIndex wtxIn
       (merge_unabandon wtxIn (merge_hashBlock wtxIn (wtx, False)))))"

definition AddToWallet ::
  "add_env \<Rightarrow> chain_view \<Rightarrow> CWallet \<Rightarrow> CWalletTx \<Rightarrow> wallet_error + (bool \<times> CWallet)" where
  "AddToWallet env cv w wtxIn =
     (let h = txhash (tx wtxIn)
      in case map_find (mapWallet w) h of
           None \<Rightarrow>
             (let wtx0 = (BindWallet env wtxIn)\<lparr>nTimeReceived := GetAdjustedTime env,
                                                nOrderPos := nOrderPosNext w\<rparr>;
                  w1 = w\<lparr>mapWallet := map_insert h wtx0 (mapWallet w),
                         nOrderPosNext := nOrderPosNext w + 1,
                         wtxOrdered := ordered_insert (nOrderPos wtx0, Inl h) (wtxOrdered w)\<rparr>;
                  wtx1 = wtx0\<lparr>nTimeSmart := ComputeTimeSmart cv w1 wtx0\<rparr>;
                  w2 = w1\<lparr>mapWallet := assign h wtx1 (mapWallet w1)\<rparr>
              in case AddToSpends (default_CWalletTx env) h w2 of
                   Inl e \<Rightarrow> Inl e
                 | Inr w3 \<Rightarrow>
                     if \<not> WriteTx_ok env then Inr (False, w3)
                     else Inr (True, w3\<lparr>mapWallet := modify h MarkDirty (mapWallet w3)\<rparr>))
         | Some found \<Rightarrow>
             (case merge_into wtxIn (BindWallet env found) of
                (wtx, fUpdated) \<Rightarrow>
                  if fUpdated \<and> \<not> WriteTx_ok env
                  then Inr (False, w\<lparr>mapWallet := assign h wtx (mapWallet w)\<rparr>)
                  else Inr (True, w\<lparr>mapWallet := assign h (MarkDirty wtx) (mapWallet w)\<rparr>)))"

text \<open>The cached amounts of a record, flags and values.\<close>

definition cached_amounts :: "CWalletTx \<Rightarrow> (bool \<times> CAmount) list" where
  "cached_amounts wtx =
     [DebitCached wtx, CreditCached wtx, ImmatureCreditCached wtx, AvailableCreditCached wtx,
      WatchDebitCached wtx, WatchCreditCached wtx, ImmatureWatchCreditCached wtx,
      AvailableWatchCreditCached wtx, ChangeCached wtx]"

definition is_dirty :: "CWalletTx \<Rightarrow> bool" where
  "is_dirty wtx = (\<forall>c\<in>set (cached_amounts wtx). \<not> fst c)"

definition example_add_env :: add_env where
  "example_add_env =
     \<lparr>GetAdjustedTime = 1234, WriteTx_ok = True,
      default_CWalletTx = example_wtx 0 [] [], BindWallet_marks_dirty = False\<rparr>"

definition empty_wallet :: CWallet where
  "empty_wallet = \<lparr>mapWallet = [], mapTxSpends = [], wtxOrdered = [], nOrderPosNext = 0\<rparr>"

text \<open>The wallet after transaction 31, which spends output 0 of transaction 9, is first seen.\<close>

definition wallet_with_31 :: CWallet where
  "wallet_with_31 =
     \<lparr>mapWallet = [(31, (example_wtx 31 [spend_of 9 0] [pay 5])\<lparr>nTimeReceived := 1234,
                                                                  nTimeSmart := 1234\<rparr>)],
      mapTxSpends = [(\<lparr>hash = 9, n_out = 0\<rparr>, 31)],
      wtxOrdered = [(0, Inl 31)],
      nOrderPosNext = 1\<rparr>"

text \<open>Transactions 51 and 52 spend each other's output 0: a spend graph with a cycle.\<close>

definition cycle_wallet :: CWallet where
  "cycle_wallet =
     \<lparr>mapWallet = [(51, example_wtx 51 [spend_of 52 0] [pay 5]),
                   (52, example_wtx 52 [spend_of 51 0] [pay 4])],
      mapTxSpends = [(\<lparr>hash = 51, n_out = 0\<rparr>, 52), (\<lparr>hash = 52, n_out = 0\<rparr>, 51)],
      wtxOrdered = [(0, Inl 51), (1, Inl 52)],
      nOrderPosNext = 2\<rparr>"

text \<open>
  Transaction 42 spends 41 and is already conflicted with block 495, six blocks deep;
  transaction 43 spends 42 and is unconfirmed.
\<close>

definition stale_wallet :: CWallet where
  "stale_wallet =
     \<lparr>mapWallet = [(41, example_wtx 41 [spend_of 9 0] [pay 5]),
                   (42, (example_wtx 42 [spend_of 41 0] [pay 4])\<lparr>hashBlock := 495\<rparr>),
                   (43, example_wtx 43 [spend_of 42 0] [pay 3])],
      mapTxSpends = [(\<lparr>hash = 9, n_out = 0\<rparr>, 41), (\<lparr>hash = 41, n_out = 0\<rparr>, 42),
                     (\<lparr>hash = 42, n_out = 0\<rparr>, 43)],
      wtxOrdered = [(0, Inl 41), (1, Inl 42), (2, Inl 43)],
      nOrderPosNext = 3\<rparr>"

definition stale_wallet_after :: CWallet where
  "stale_wallet_after =
     stale_wallet\<lparr>mapWallet :=
       [(41, (example_wtx 41 [spend_of 9 0] [pay 5])\<lparr>hashBlock := 500\<rparr>),
        (42, (example_wtx 42 [spend_of 41 0] [pay 4])\<lparr>hashBlock := 495\<rparr>),
        (43, example_wtx 43 [spend_of 42 0] [pay 3])]\<rparr>"

section \<open>The balance view\<close>

text \<open>
  Ownership of a script is decided outside the wallet (\<open>::IsMine\<close>).  An
  \<open>isminefilter\<close> is a mask of ownership kinds; it is the predicate telling which kinds
  it selects, and \<open>IsMine(x) & filter\<close> is \<open>ismine_match\<close>.
\<close>

datatype isminetype =
  ISMINE_NO
| ISMINE_WATCH_UNSOLVABLE
| ISMINE_WATCH_SOLVABLE
| ISMINE_SPENDABLE

type_synonym isminefilter = "isminetype \<Rightarrow> bool"

definition ISMINE_SPENDABLE_filter :: isminefilter where
  "ISMINE_SPENDABLE_filter t = (t = ISMINE_SPENDABLE)"

definition ISMINE_WATCH_ONLY :: isminefilter where
  "ISMINE_WATCH_ONLY t = (t = ISMINE_WATCH_UNSOLVABLE \<or> t = ISMINE_WATCH_SOLVABLE)"

definition ISMINE_ALL :: isminefilter where
  "ISMINE_ALL t = (t \<noteq> ISMINE_NO)"

definition ismine_match :: "isminetype \<Rightarrow> isminefilter \<Rightarrow> bool" where
  "ismine_match t f = (t \<noteq> ISMINE_NO \<and> f t)"

definition filter_has_SPENDABLE :: "isminefilter \<Rightarrow> bool" where
  "filter_has_SPENDABLE f = f ISMINE_SPENDABLE"

definition filter_has_WATCH_ONLY :: "isminefilter \<Rightarrow> bool" where
  "filter_has_WATCH_ONLY f = (f ISMINE_WATCH_UNSOLVABLE \<or> f ISMINE_WATCH_SOLVABLE)"

text \<open>
  What the balance functions read from outside the file: script ownership, the finality
  check, the flag \<open>bSpendZeroConfChange\<close>, the constants \<open>MAX_MONEY\<close> and
  \<open>COINBASE_MATURITY\<close>, and the default of the parameter \<open>fUseCache\<close>.
\<close>

record own_env =
  IsMine_script :: "CScript \<Rightarrow> isminetype"
  CheckFinalTx :: "CTransaction \<Rightarrow> bool"
  bSpendZeroConfChange :: bool
  MAX_MONEY :: CAmount
  COINBASE_MATURITY :: int
  fUseCache_default :: bool

definition MoneyRange :: "own_env \<Rightarrow> CAmount \<Rightarrow> bool" where
  "MoneyRange env nValue' = (nValue' \<ge> 0 \<and> nValue' \<le> MAX_MONEY env)"

definition IsMine_txout :: "own_env \<Rightarrow> CTxOut \<Rightarrow> isminetype" where
  "IsMine_txout env out = IsMine_script env (scriptPubKey out)"

text \<open>\<open>CWallet::GetDebit(txin, filter)\<close>.\<close>

definition GetDebit_txin :: "own_env \<Rightarrow> CWallet \<Rightarrow> CTxIn \<Rightarrow> isminefilter \<Rightarrow> CAmount" where
  "GetDebit_txin env w txin f =
     (case map_find (mapWallet w) (hash (prevout txin)) of
        None \<Rightarrow> 0
      | Some prev \<Rightarrow>
          if n_out (prevout txin) < length (vout (tx prev))
          then (if ismine_match (IsMine_txout env (vout (tx prev) ! n_out (prevout txin))) f
                then nValue (vout (tx prev) ! n_out (prevout txin)) else 0)
          else 0)"

text \<open>\<open>CWallet::GetDebit(tx, filter)\<close>: the running sum is checked after every input.\<close>

fun GetDebit_inputs ::
  "own_env \<Rightarrow> CWallet \<Rightarrow> CTxIn list \<Rightarrow> isminefilter \<Rightarrow> CAmount \<Rightarrow> wallet_error + CAmount" where
  "GetDebit_inputs env w [] f nDebit = Inr nDebit"
| "GetDebit_inputs env w (txin # rest) f nDebit =
     (let nDebit1 = nDebit + GetDebit_txin env w txin f
      in if \<not> MoneyRange env nDebit1 then Inl ValueOutOfRange
         else GetDebit_inputs env w rest f nDebit1)"

definition GetDebit_tx :: "own_env \<Rightarrow> CWallet \<Rightarrow> CTransaction \<Rightarrow> isminefilter \<Rightarrow> wallet_error + CAmount" where
  "GetDebit_tx env w t f = GetDebit_inputs env w (vin t) f 0"

text \<open>\<open>CWallet::GetCredit(txout, filter)\<close>.\<close>

definition GetCredit_txout :: "own_env \<Rightarrow> CTxOut \<Rightarrow> isminefilter \<Rightarrow> wallet_error + CAmount" where
  "GetCredit_txout env out f =
     (if \<not> MoneyRange env (nValue out) then Inl ValueOutOfRange
      else Inr (if ismine_match (IsMine_txout env out) f then nValue out else 0))"

text \<open>
  \<open>CWalletTx::GetDebit(filter)\<close>: the cached amounts are used when their flag is set
  and filled otherwise; the record comes back with its caches.
\<close>

definition CWalletTx_GetDebit ::
  "own_env \<Rightarrow> CWallet \<Rightarrow> CWalletTx \<Rightarrow> isminefilter \<Rightarrow> wallet_error + (CAmount \<times> CWalletTx)" where
  "CWalletTx_GetDebit env w wtx f =
     (if vin (tx wtx) = [] then Inr (0, wtx)
      else
        (case (if filter_has_SPENDABLE f
               then (if fst (DebitCached wtx) then Inr (snd (DebitCached wtx), wtx)
                     else (case GetDebit_tx env w (tx wtx) ISMINE_SPENDABLE_filter of
                             Inl e \<Rightarrow> Inl e
                           | Inr d \<Rightarrow> Inr (d, wtx\<lparr>DebitCached := (True, d)\<rparr>)))
               else Inr (0, wtx)) of
           Inl e \<Rightarrow> Inl e
         | Inr (debit, wtx1) \<Rightarrow>
             if filter_has_WATCH_ONLY f
             then (if fst (WatchDebitCached wtx1)
                   then Inr (debit + snd (WatchDebitCached wtx1), wtx1)
                   else (case GetDebit_tx env w (tx wtx1) ISMINE_WATCH_ONLY of
                           Inl e \<Rightarrow> Inl e
                         | Inr d \<Rightarrow> Inr (debit + d, wtx1\<lparr>WatchDebitCached := (True, d)\<rparr>)))
             else Inr (debit, wtx1)))"

text \<open>The header's \<open>CWalletTx::IsFromMe(filter)\<close>: the cached debit is positive.\<close>

definition IsFromMe ::
  "own_env \<Rightarrow> CWallet \<Rightarrow> CWalletTx \<Rightarrow> isminefilter \<Rightarrow> wallet_error + (bool \<times> CWalletTx)" where
  "IsFromMe env w wtx f =
     (case CWalletTx_GetDebit env w wtx f of
        Inl e \<Rightarrow> Inl e
      | Inr (debit, wtx1) \<Rightarrow> Inr (debit > 0, wtx1))"

text \<open>
  The loop of \<open>IsTrusted\<close> over the inputs.  \<open>parent->tx->vout[txin.prevout.n]\<close> is an
  unchecked access.
\<close>

fun inputs_from_us :: "own_env \<Rightarrow> CWallet \<Rightarrow> CTxIn list \<Rightarrow> wallet_error + bool" where
  "inputs_from_us env w [] = Inr True"
| "inputs_from_us env w (txin # rest) =
     (case map_find (mapWallet w) (hash (prevout txin)) of
        None \<Rightarrow> Inr False
      | Some parent \<Rightarrow>
          if \<not> n_out (prevout txin) < length (vout (tx parent)) then Inl OutOfBoundsAccess
          else if IsMine_txout env (vout (tx parent) ! n_out (prevout txin)) \<noteq> ISMINE_SPENDABLE
          then Inr False
          else inputs_from_us env w rest)"

text \<open>\<open>CWalletTx::IsTrusted\<close>.\<close>

definition IsTrusted ::
  "own_env \<Rightarrow> chain_view \<Rightarrow> CWallet \<Rightarrow> CWalletTx \<Rightarrow> wallet_error + (bool \<times> CWalletTx)" where
  "IsTrusted env cv w wtx =
     (if \<not> CheckFinalTx env (tx wtx) then Inr (False, wtx)
      else (let nDepth' = GetDepthInMainChain cv wtx
            in if nDepth' \<ge> 1 then Inr (True, wtx)
               else if nDepth' < 0 then Inr (False, wtx)
               else if \<not> bSpendZeroConfChange env then Inr (False, wtx)
               else (case IsFromMe env w wtx ISMINE_ALL of
                       Inl e \<Rightarrow> Inl e
                     | Inr (fromMe, wtx1) \<Rightarrow>
                         if \<not> fromMe then Inr (False, wtx1)
                         else if \<not> InMempool wtx1 then Inr (False, wtx1)
                         else (case inputs_from_us env w (vin (tx wtx1)) of
                                 Inl e \<Rightarrow> Inl e
                               | Inr b \<Rightarrow> Inr (b, wtx1)))))"

text \<open>\<open>CMerkleTx::GetBlocksToMaturity\<close> and \<open>CWalletTx::GetAvailableCredit\<close>.\<close>

definition GetBlocksToMaturity :: "own_env \<Rightarrow> chain_view \<Rightarrow> CWalletTx \<Rightarrow> int" where
  "GetBlocksToMaturity env cv wtx =
     (if \<not> coinbase (tx wtx) then 0
      else max 0 ((COINBASE_MATURITY env + 1) - GetDepthInMainChain cv wtx))"

fun available_outputs ::
  "own_env \<Rightarrow> chain_view \<Rightarrow> CWallet \<Rightarrow> uint256 \<Rightarrow> CTxOut list \<Rightarrow> nat \<Rightarrow> CAmount
     \<Rightarrow> wallet_error + CAmount" where
  "available_outputs env cv w hashTx [] i nCredit = Inr nCredit"
| "available_outputs env cv w hashTx (out # rest) i nCredit =
     (if \<not> IsSpent cv w hashTx i
      then (case GetCredit_txout env out ISMINE_SPENDABLE_filter of
              Inl e \<Rightarrow> Inl e
            | Inr c \<Rightarrow>
                if \<not> MoneyRange env (nCredit + c) then Inl ValueOutOfRange
                else available_outputs env cv w hashTx rest (Suc i) (nCredit + c))
      else available_outputs env cv w hashTx rest (Suc i) nCredit)"

definition GetAvailableCredit ::
  "own_env \<Rightarrow> chain_view \<Rightarrow> CWallet \<Rightarrow> CWalletTx \<Rightarrow> bool \<Rightarrow> wallet_error + (CAmount \<times> CWalletTx)" where
  "GetAvailableCredit env cv w wtx fUseCache =
     (if coinbase (tx wtx) \<and> GetBlocksToMaturity env cv wtx > 0 then Inr (0, wtx)
      else if fUseCache \<and> fst (AvailableCreditCached wtx)
      then Inr (snd (AvailableCreditCached wtx), wtx)
      else (case available_outputs env cv w (txhash (tx wtx)) (vout (tx wtx)) 0 0 of
              Inl e \<Rightarrow> Inl e
            | Inr nCredit \<Rightarrow> Inr (nCredit, wtx\<lparr>AvailableCreditCached := (True, nCredit)\<rparr>)))"

text \<open>
  \<open>CWallet::GetBalance\<close>: the loop over \<open>mapWallet\<close> works on each record in place;
  \<open>pre\<close> holds the entries already visited, with the caches they were left with.
\<close>

fun GetBalance_loop ::
  "own_env \<Rightarrow> chain_view \<Rightarrow> CWallet \<Rightarrow> (uint256 \<times> CWalletTx) list \<Rightarrow> (uint256 \<times> CWalletTx) list
     \<Rightarrow> CAmount \<Rightarrow> wallet_error + (CAmount \<times> CWallet)" where
  "GetBalance_loop env cv w pre [] nTotal0 = Inr (nTotal0, w\<lparr>mapWallet := pre\<rparr>)"
| "GetBalance_loop env cv w pre ((h, pcoin) # rest) nTotal0 =
     (case IsTrusted env cv (w\<lparr>mapWallet := pre @ (h, pcoin) # rest\<rparr>) pcoin of
        Inl e \<Rightarrow> Inl e
      | Inr (trusted, pcoin1) \<Rightarrow>
          if trusted
          then (case GetAvailableCredit env cv (w\<lparr>mapWallet := pre @ (h, pcoin1) # rest\<rparr>)
                       pcoin1 (fUseCache_default env) of
                  Inl e \<Rightarrow> Inl e
                | Inr (credit, pcoin2) \<Rightarrow>
                    GetBalance_loop env cv w (pre @ [(h, pcoin2)]) rest (nTotal0 + credit))
          else GetBalance_loop env cv w (pre @ [(h, pcoin1)]) rest nTotal0)"

definition GetBalance :: "own_env \<Rightarrow> chain_view \<Rightarrow> CWallet \<Rightarrow> wallet_error + (CAmount \<times> CWallet)" where
  "GetBalance env cv w = GetBalance_loop env cv w [] (mapWallet w) 0"

subsection \<open>The trust predicate as the specification words it\<close>

text \<open>
  The specification's predicate: the record passes the finality check and has depth at
  least 1, or has depth 0, all its inputs are self-originated, it is in the mempool, and
  every ancestor, recursively (here to the depth \<open>k\<close>), is self-originated and in the
  mempool.  A record is self-originated when it debits the wallet.
\<close>

definition self_originated :: "own_env \<Rightarrow> CWallet \<Rightarrow> CWalletTx \<Rightarrow> bool" where
  "self_originated env w wtx =
     (case GetDebit_tx env w (tx wtx) ISMINE_ALL of Inl e \<Rightarrow> False | Inr d \<Rightarrow> d > 0)"

fun spec_ancestors_ok :: "own_env \<Rightarrow> CWallet \<Rightarrow> nat \<Rightarrow> CWalletTx \<Rightarrow> bool" where
  "spec_ancestors_ok env w 0 wtx = True"
| "spec_ancestors_ok env w (Suc k) wtx =
     (\<forall>txin\<in>set (vin (tx wtx)).
        case map_find (mapWallet w) (hash (prevout txin)) of
          None \<Rightarrow> False
        | Some parent \<Rightarrow>
            self_originated env w parent \<and> InMempool parent \<and> spec_ancestors_ok env w k parent)"

definition spec_trusted :: "own_env \<Rightarrow> chain_view \<Rightarrow> CWallet \<Rightarrow> nat \<Rightarrow> CWalletTx \<Rightarrow> bool" where
  "spec_trusted env cv w k wtx =
     (CheckFinalTx env (tx wtx)
      \<and> (GetDepthInMainChain cv wtx \<ge> 1
         \<or> (GetDepthInMainChain cv wtx = 0 \<and> self_originated env w wtx \<and> InMempool wtx
            \<and> spec_ancestors_ok env w k wtx)))"

text \<open>What one pass of the balance loop reads of a record in the wallet \<open>w\<close>.\<close>

definition trusted_value :: "own_env \<Rightarrow> chain_view \<Rightarrow> CWallet \<Rightarrow> CWalletTx \<Rightarrow> bool" where
  "trusted_value env cv w wtx =
     (case IsTrusted env cv w wtx of Inl e \<Rightarrow> False | Inr (b, wtx1) \<Rightarrow> b)"

definition credit_value :: "own_env \<Rightarrow> chain_view \<Rightarrow> CWallet \<Rightarrow> CWalletTx \<Rightarrow> CAmount" where
  "credit_value env cv w wtx =
     (case IsTrusted env cv w wtx of
        Inl e \<Rightarrow> 0
      | Inr (b, wtx1) \<Rightarrow>
          (case GetAvailableCredit env cv w wtx1 (fUseCache_default env) of
             Inl e \<Rightarrow> 0
           | Inr (c, wtx2) \<Rightarrow> c))"

definition spec_balance :: "own_env \<Rightarrow> chain_view \<Rightarrow> CWallet \<Rightarrow> nat \<Rightarrow> CAmount" where
  "spec_balance env cv w k =
     (\<Sum>e\<leftarrow>mapWallet w. if spec_trusted env cv w k (snd e)
                          then credit_value env cv w (snd e) else 0)"

definition trusted_credit :: "own_env \<Rightarrow> chain_view \<Rightarrow> CWallet \<Rightarrow> CWalletTx \<Rightarrow> CAmount" where
  "trusted_credit env cv w wtx =
     (if trusted_value env cv w wtx then credit_value env cv w wtx else 0)"

text \<open>
  An example: every script is spendable by the wallet, every transaction is final.
  Transaction 62 is in the mempool and spends output 0 of 61, which spends output 0 of
  60; 61 is not in the mempool.
\<close>

definition example_own_env :: own_env where
  "example_own_env =
     \<lparr>IsMine_script = (\<lambda>s. ISMINE_SPENDABLE), CheckFinalTx = (\<lambda>t. True),
      bSpendZeroConfChange = True, MAX_MONEY = 2100000000000000, COINBASE_MATURITY = 100,
      fUseCache_default = True\<rparr>"

definition mempool_child :: CWalletTx where
  "mempool_child = (example_wtx 62 [spend_of 61 0] [pay 7])\<lparr>fInMempool := True\<rparr>"

definition parent_not_in_mempool_wallet :: CWallet where
  "parent_not_in_mempool_wallet =
     \<lparr>mapWallet = [(60, (example_wtx 60 [] [pay 9])\<lparr>hashBlock := 500, nIndex := 0\<rparr>),
                   (61, example_wtx 61 [spend_of 60 0] [pay 8]),
                   (62, mempool_child)],
      mapTxSpends = [(\<lparr>hash = 60, n_out = 0\<rparr>, 61), (\<lparr>hash = 61, n_out = 0\<rparr>, 62)],
      wtxOrdered = [(0, Inl 60), (1, Inl 61), (2, Inl 62)],
      nOrderPosNext = 3\<rparr>"

text \<open>
  A second example.  Transaction 70 was made by someone else (its input spends an output
  of a transaction the wallet does not track) and pays the wallet; it is in the mempool.
  Transaction 71 spends that output and is in the mempool too.
\<close>

definition foreign_parent :: CWalletTx where
  "foreign_parent =
     (example_wtx 70 [spend_of 99 0] [pay 9])\<lparr>fFromMe := False, fInMempool := True\<rparr>"

definition own_child :: CWalletTx where
  "own_child = (example_wtx 71 [spend_of 70 0] [pay 8])\<lparr>fInMempool := True\<rparr>"

definition foreign_parent_wallet :: CWallet where
  "foreign_parent_wallet =
     \<lparr>mapWallet = [(70, foreign_parent), (71, own_child)],
      mapTxSpends = [(\<lparr>hash = 70, n_out = 0\<rparr>, 71), (\<lparr>hash = 99, n_out = 0\<rparr>, 70)],
      wtxOrdered = [(0, Inl 70), (1, Inl 71)],
      nOrderPosNext = 2\<rparr>"





section \<open>Building a transaction\<close>

subsection \<open>What \<open>SelectCoins\<close> and \<open>CreateTransaction\<close> take from outside\<close>

datatype AvailableCoinsType =
  ALL_COINS
| ONLY_DENOMINATED
| ONLY_NOT40000IFMN
| ONLY_NONDENOMINATED_NOT40000IFMN
| ONLY_40000

record CRecipient =
  r_scriptPubKey :: CScript
  nAmount :: CAmount
  fSubtractFeeFromAmount :: bool

text \<open>
  Of \<open>CCoinControl\<close>: the selected outpoints (\<open>ListSelected\<close>), \<open>fAllowOtherInputs\<close>,
  and the script of \<open>destChange\<close> (\<open>None\<close> for \<open>CNoDestination\<close>).
\<close>

record CCoinControl =
  setSelected :: "COutPoint list"
  fAllowOtherInputs :: bool
  destChange :: "CScript option"

definition HasSelected :: "CCoinControl \<Rightarrow> bool" where
  "HasSelected cc = (setSelected cc \<noteq> [])"

text \<open>
  A refusal is a \<open>return false\<close> with its \<open>strFailReason\<close>; an undefined step is a failed
  \<open>assert\<close> or an access outside a vector.
\<close>

datatype build_error = Refused string | Undefined wallet_error

text \<open>
  The environment.  \<open>select_envs k j\<close> holds the constants and the random sources of the
  \<open>j\<close>-th call of \<open>SelectCoinsMinConf\<close> in pass \<open>k\<close> of the fee loop; \<open>rand_change_pos k\<close>
  is the draw of \<open>GetRandInt\<close> for the change position in pass \<open>k\<close>, and
  \<open>GetReservedKey k\<close> the script of the key reserved in pass \<open>k\<close> (\<open>None\<close> when the
  keypool ran out).  \<open>IsDust_dustRelayFee\<close> is \<open>IsDust(txout, ::dustRelayFee)\<close>,
  \<open>CTxOut_IsDust\<close> the member \<open>txout.IsDust()\<close>.  \<open>SelectCoins_nCoinType\<close> is the default
  of the parameter \<open>nCoinType\<close> of \<open>SelectCoins\<close>, which \<open>CreateTransaction\<close> does not
  pass.  \<open>ProduceSignature coin\<close> is the script that signing puts into the input that
  spends \<open>coin\<close> (\<open>None\<close> when signing fails).  Sizes, fees and the mempool check are
  functions of the inputs and outputs of the transaction under construction.
\<close>

record build_env =
  select_envs :: "nat \<Rightarrow> nat \<Rightarrow> select_env"
  vecPrivateSendDenominations :: "CAmount list"
  GetInputPrivateSendRounds :: "COutPoint \<Rightarrow> int"
  nPrivateSendRounds :: int
  wallet_bSpendZeroConfChange :: bool
  nMaxChainLength :: nat
  walletrejectlongchains :: bool
  SelectCoins_nCoinType :: AvailableCoinsType
  IsDust_dustRelayFee :: "CTxOut \<Rightarrow> bool"
  CTxOut_IsDust :: "CTxOut \<Rightarrow> bool"
  GetDustThreshold_minRelayTxFee :: "CTxOut \<Rightarrow> CAmount"
  GetDustThreshold_discard_rate :: "CTxOut \<Rightarrow> CAmount"
  GetReservedKey_first :: "CScript option"
  GetReservedKey :: "nat \<Rightarrow> CScript option"
  rand_change_pos :: "nat \<Rightarrow> nat"
  DummySignTx :: "CInputCoin list \<Rightarrow> CTxOut list \<Rightarrow> bool"
  GetVirtualTransactionSize :: "CInputCoin list \<Rightarrow> CTxOut list \<Rightarrow> nat"
  GetMinimumFee :: "nat \<Rightarrow> CAmount"
  minRelayTxFee_GetFee :: "nat \<Rightarrow> CAmount"
  GetSerializeSize :: "CTxOut \<Rightarrow> nat"
  MIN_FINAL_CHANGE :: CAmount
  ProduceSignature :: "CInputCoin \<Rightarrow> CScript option"
  GetTransactionWeight :: "CTxIn list \<Rightarrow> CTxOut list \<Rightarrow> nat"
  MAX_STANDARD_TX_WEIGHT :: nat
  CalculateMemPoolAncestors :: "CTxIn list \<Rightarrow> CTxOut list \<Rightarrow> bool"

subsection \<open>\<open>CWallet::SelectCoins\<close>\<close>

text \<open>The coin-control loop: every spendable candidate is taken.\<close>

fun select_all_selected ::
  "build_env \<Rightarrow> AvailableCoinsType \<Rightarrow> COutput list \<Rightarrow> CInputCoin list \<times> CAmount
     \<Rightarrow> CInputCoin list \<times> CAmount" where
  "select_all_selected env nCoinType [] r = r"
| "select_all_selected env nCoinType (out # rest) (setCoinsRet, nValueRet) =
     (if \<not> fSpendable out then select_all_selected env nCoinType rest (setCoinsRet, nValueRet)
      else if nCoinType = ONLY_DENOMINATED
              \<and> GetInputPrivateSendRounds env (outpoint (mk_CInputCoin out))
                  < nPrivateSendRounds env
      then select_all_selected env nCoinType rest (setCoinsRet, nValueRet)
      else select_all_selected env nCoinType rest
             (set_insert (mk_CInputCoin out) setCoinsRet, nValueRet + nValue (tx_out out)))"

text \<open>The denominated loops: denominations from large to small, candidates inside.\<close>

fun select_denom ::
  "build_env \<Rightarrow> CAmount \<Rightarrow> CAmount \<Rightarrow> CAmount \<Rightarrow> COutput list \<Rightarrow> CInputCoin list \<times> CAmount
     \<Rightarrow> CInputCoin list \<times> CAmount" where
  "select_denom env nDenom nTargetValue nSmallestDenom [] r = r"
| "select_denom env nDenom nTargetValue nSmallestDenom (out # rest) (setCoinsRet, nValueRet) =
     (if nValue (tx_out out) = nDenom \<and> nValueRet + nDenom < nTargetValue + nSmallestDenom
      then (if GetInputPrivateSendRounds env (outpoint (mk_CInputCoin out))
                 < nPrivateSendRounds env
            then select_denom env nDenom nTargetValue nSmallestDenom rest (setCoinsRet, nValueRet)
            else select_denom env nDenom nTargetValue nSmallestDenom rest
                   (set_insert (mk_CInputCoin out) setCoinsRet, nValueRet + nDenom))
      else select_denom env nDenom nTargetValue nSmallestDenom rest (setCoinsRet, nValueRet))"

fun select_denoms ::
  "build_env \<Rightarrow> CAmount list \<Rightarrow> CAmount \<Rightarrow> CAmount \<Rightarrow> COutput list \<Rightarrow> CInputCoin list \<times> CAmount
     \<Rightarrow> CInputCoin list \<times> CAmount" where
  "select_denoms env [] nTargetValue nSmallestDenom vCoins r = r"
| "select_denoms env (nDenom # rest) nTargetValue nSmallestDenom vCoins r =
     select_denoms env rest nTargetValue nSmallestDenom vCoins
       (select_denom env nDenom nTargetValue nSmallestDenom vCoins r)"

text \<open>
  The preset inputs: \<open>None\<close> is the \<open>return false\<close> for an outpoint that is not in the
  wallet or names no output.  \<open>CInputCoin(pcoin, n)\<close> takes the hash of the record.
\<close>

definition CInputCoin_of :: "CWalletTx \<Rightarrow> nat \<Rightarrow> CInputCoin" where
  "CInputCoin_of pcoin i =
     \<lparr>outpoint = \<lparr>hash = txhash (tx pcoin), n_out = i\<rparr>, txout = vout (tx pcoin) ! i\<rparr>"

fun preset_inputs ::
  "CWallet \<Rightarrow> COutPoint list \<Rightarrow> CInputCoin list \<times> CAmount \<Rightarrow> (CInputCoin list \<times> CAmount) option" where
  "preset_inputs w [] r = Some r"
| "preset_inputs w (op # rest) (setPresetCoins, nValueFromPresetInputs) =
     (case map_find (mapWallet w) (hash op) of
        None \<Rightarrow> None
      | Some pcoin \<Rightarrow>
          if length (vout (tx pcoin)) \<le> n_out op then None
          else preset_inputs w rest
                 (set_insert (CInputCoin_of pcoin (n_out op)) setPresetCoins,
                  nValueFromPresetInputs + nValue (vout (tx pcoin) ! n_out op)))"

definition set_count :: "CInputCoin list \<Rightarrow> CInputCoin \<Rightarrow> bool" where
  "set_count S c = (\<exists>d\<in>set S. outpoint d = outpoint c)"

text \<open>One operand of the chain of \<open>||\<close>: evaluated only when nothing before it succeeded.\<close>

definition or_else ::
  "bool \<times> CInputCoin list \<times> CAmount \<Rightarrow> bool \<Rightarrow> bool \<times> CInputCoin list \<times> CAmount
     \<Rightarrow> bool \<times> CInputCoin list \<times> CAmount" where
  "or_else st guard attempt = (if fst st then st else if guard then attempt else st)"

definition SelectCoins ::
  "build_env \<Rightarrow> nat \<Rightarrow> CWallet \<Rightarrow> COutput list \<Rightarrow> CAmount \<Rightarrow> CInputCoin list \<Rightarrow> CAmount
     \<Rightarrow> CCoinControl option \<Rightarrow> AvailableCoinsType
     \<Rightarrow> build_error + (bool \<times> CInputCoin list \<times> CAmount)" where
  "SelectCoins env k w vAvailableCoins nTargetValue setCoinsRet nValueRet coinControl nCoinType =
     (if (case coinControl of None \<Rightarrow> False
          | Some cc \<Rightarrow> HasSelected cc \<and> \<not> fAllowOtherInputs cc)
      then (case select_all_selected env nCoinType vAvailableCoins (setCoinsRet, nValueRet) of
              (S, v) \<Rightarrow> Inr (v \<ge> nTargetValue, S, v))
      else if nCoinType = ONLY_DENOMINATED
      then (if vecPrivateSendDenominations env = [] then Inl (Undefined OutOfBoundsAccess)
            else (case select_denoms env (vecPrivateSendDenominations env) nTargetValue
                         (last (vecPrivateSendDenominations env)) vAvailableCoins
                         (setCoinsRet, nValueRet) of
                    (S, v) \<Rightarrow> Inr (v \<ge> nTargetValue, S, v)))
      else
        (let vPresetInputs = (case coinControl of None \<Rightarrow> [] | Some cc \<Rightarrow> setSelected cc)
         in case preset_inputs w vPresetInputs ([], 0) of
              None \<Rightarrow> Inr (False, setCoinsRet, nValueRet)
            | Some (setPresetCoins, nValueFromPresetInputs) \<Rightarrow>
                (let vCoins = (if (case coinControl of None \<Rightarrow> False | Some cc \<Rightarrow> HasSelected cc)
                               then filter (\<lambda>out. \<not> set_count setPresetCoins (mk_CInputCoin out))
                                      vAvailableCoins
                               else vAvailableCoins);
                     t = nTargetValue - nValueFromPresetInputs;
                     zc = wallet_bSpendZeroConfChange env;
                     st0 = (nTargetValue \<le> nValueFromPresetInputs, setCoinsRet, nValueRet);
                     st1 = or_else st0 True
                             (SelectCoinsMinConf (select_envs env k 0) t 1 6 0 vCoins);
                     st2 = or_else st1 True
                             (SelectCoinsMinConf (select_envs env k 1) t 1 1 0 vCoins);
                     st3 = or_else st2 zc
                             (SelectCoinsMinConf (select_envs env k 2) t 0 1 2 vCoins);
                     st4 = or_else st3 zc
                             (SelectCoinsMinConf (select_envs env k 3) t 0 1
                                (min 4 (nMaxChainLength env div 3)) vCoins);
                     st5 = or_else st4 zc
                             (SelectCoinsMinConf (select_envs env k 4) t 0 1
                                (nMaxChainLength env div 2) vCoins);
                     st6 = or_else st5 zc
                             (SelectCoinsMinConf (select_envs env k 5) t 0 1
                                (nMaxChainLength env) vCoins);
                     st7 = or_else st6 (zc \<and> \<not> walletrejectlongchains env)
                             (SelectCoinsMinConf (select_envs env k 6) t 0 1
                                18446744073709551615 vCoins)
                 in case st7 of
                      (res, S, v) \<Rightarrow>
                        Inr (res, fold set_insert setPresetCoins S, v + nValueFromPresetInputs))))"

subsection \<open>\<open>CWallet::CreateTransaction\<close>\<close>

text \<open>The first loop: the amounts are summed and the fee-paying recipients counted.\<close>

fun sum_recipients :: "CRecipient list \<Rightarrow> CAmount \<Rightarrow> nat \<Rightarrow> build_error + (CAmount \<times> nat)" where
  "sum_recipients [] nValue' nSubtractFeeFromAmount = Inr (nValue', nSubtractFeeFromAmount)"
| "sum_recipients (recipient # rest) nValue' nSubtractFeeFromAmount =
     (if nValue' < 0 \<or> nAmount recipient < 0
      then Inl (Refused ''Transaction amounts must not be negative'')
      else sum_recipients rest (nValue' + nAmount recipient)
             (if fSubtractFeeFromAmount recipient then Suc nSubtractFeeFromAmount
              else nSubtractFeeFromAmount))"

text \<open>
  The outputs to the payees.  The division and the remainder are those of C++, which
  truncate towards zero.
\<close>

fun payee_vouts ::
  "build_env \<Rightarrow> CRecipient list \<Rightarrow> CAmount \<Rightarrow> nat \<Rightarrow> bool \<Rightarrow> CTxOut list
     \<Rightarrow> build_error + CTxOut list" where
  "payee_vouts env [] nFeeRet nSubtractFeeFromAmount fFirst txNew_vout = Inr txNew_vout"
| "payee_vouts env (recipient # rest) nFeeRet nSubtractFeeFromAmount fFirst txNew_vout =
     (if fSubtractFeeFromAmount recipient \<and> nSubtractFeeFromAmount = 0
      then Inl (Undefined AssertionFailed)
      else
        (let txout =
               \<lparr>nValue =
                  (if fSubtractFeeFromAmount recipient
                   then nAmount recipient - nFeeRet sdiv int nSubtractFeeFromAmount
                        - (if fFirst then nFeeRet smod int nSubtractFeeFromAmount else 0)
                   else nAmount recipient),
                scriptPubKey = r_scriptPubKey recipient\<rparr>
         in if IsDust_dustRelayFee env txout
            then Inl (Refused
                   (if fSubtractFeeFromAmount recipient \<and> nFeeRet > 0
                    then (if nValue txout < 0
                          then ''The transaction amount is too small to pay the fee''
                          else ''The transaction amount is too small to send after the fee has been deducted'')
                    else ''Transaction amount too small''))
            else payee_vouts env rest nFeeRet nSubtractFeeFromAmount
                   (fFirst \<and> \<not> fSubtractFeeFromAmount recipient) (txNew_vout @ [txout])))"

text \<open>The index of the first recipient that pays the fee.\<close>

fun first_subtract :: "CRecipient list \<Rightarrow> nat \<Rightarrow> nat option" where
  "first_subtract [] i = None"
| "first_subtract (recipient # rest) i =
     (if fSubtractFeeFromAmount recipient then Some i else first_subtract rest (Suc i))"

text \<open>
  Lines 3054 to 3069: a dust change is raised to the dust threshold and the difference
  is taken from the first recipient that pays the fee.
\<close>

definition raise_dust_change ::
  "build_env \<Rightarrow> CRecipient list \<Rightarrow> nat \<Rightarrow> CTxOut list \<Rightarrow> CTxOut
     \<Rightarrow> build_error + (CTxOut list \<times> CTxOut)" where
  "raise_dust_change env vecSend nSubtractFeeFromAmount txNew_vout newTxOut =
     (if nSubtractFeeFromAmount > 0 \<and> CTxOut_IsDust env newTxOut
      then (let nDust = GetDustThreshold_minRelayTxFee env newTxOut - nValue newTxOut;
                newTxOut1 = newTxOut\<lparr>nValue := nValue newTxOut + nDust\<rparr>
            in case first_subtract vecSend 0 of
                 None \<Rightarrow> Inr (txNew_vout, newTxOut1)
               | Some i \<Rightarrow>
                   if \<not> i < length txNew_vout then Inl (Undefined OutOfBoundsAccess)
                   else (let vout1 = txNew_vout
                                       [i := (txNew_vout ! i)
                                               \<lparr>nValue := nValue (txNew_vout ! i) - nDust\<rparr>]
                         in if CTxOut_IsDust env (vout1 ! i)
                            then Inl (Refused
                              ''The transaction amount is too small to send after the fee has been deducted'')
                            else Inr (vout1, newTxOut1)))
      else Inr (txNew_vout, newTxOut))"

text \<open>
  Lines 3009 to 3091, the change.  The result is the vector of outputs, the fee, the
  change position, and the change output \<open>newTxOut\<close> as it is built at line 3049 from
  the surplus \<open>nChange\<close> (\<open>None\<close> when that line is not reached).  The cast of the
  position to \<open>unsigned int\<close> is written out.
\<close>

definition change_section ::
  "build_env \<Rightarrow> nat \<Rightarrow> CCoinControl \<Rightarrow> AvailableCoinsType \<Rightarrow> CRecipient list \<Rightarrow> nat \<Rightarrow> int
     \<Rightarrow> CTxOut list \<Rightarrow> CAmount \<Rightarrow> CAmount
     \<Rightarrow> build_error + (CTxOut list \<times> CAmount \<times> int \<times> CTxOut option)" where
  "change_section env k cc nCoinType vecSend nSubtractFeeFromAmount nChangePosInOut txNew_vout
       nFeeRet nChange =
     (if nChange > 0
      then (if nCoinType = ONLY_DENOMINATED
            then Inr (txNew_vout, nFeeRet + nChange, nChangePosInOut, None)
            else
              (case (case destChange cc of Some s \<Rightarrow> Some s | None \<Rightarrow> GetReservedKey env k) of
                 None \<Rightarrow> Inl (Refused ''Keypool ran out, please call keypoolrefill first'')
               | Some scriptChange \<Rightarrow>
                   (let newTxOut0 = \<lparr>nValue = nChange, scriptPubKey = scriptChange\<rparr>
                    in case raise_dust_change env vecSend nSubtractFeeFromAmount txNew_vout
                              newTxOut0 of
                         Inl e \<Rightarrow> Inl e
                       | Inr (vout1, newTxOut) \<Rightarrow>
                           if CTxOut_IsDust env newTxOut
                           then Inr (vout1, nFeeRet + nChange, -1, Some newTxOut0)
                           else if nChangePosInOut = -1
                           then (let p = rand_change_pos env k mod (length vout1 + 1)
                                 in Inr (take p vout1 @ newTxOut # drop p vout1, nFeeRet, int p,
                                         Some newTxOut0))
                           else if nat (nChangePosInOut mod 4294967296) > length vout1
                           then Inl (Refused ''Change index out of range'')
                           else if nChangePosInOut < 0 then Inl (Undefined OutOfBoundsAccess)
                           else (let p = nat nChangePosInOut
                                 in Inr (take p vout1 @ newTxOut # drop p vout1, nFeeRet,
                                         nChangePosInOut, Some newTxOut0)))))
      else Inr (txNew_vout, nFeeRet, nChangePosInOut, None))"

text \<open>
  Lines 3093 to 3192, the fee.  The pass either ends the loop with the outputs and the
  fee, or asks for another pass with a new fee and a new \<open>pick_new_inputs\<close>.  The element
  \<open>txNew.vout.begin() + nChangePosInOut\<close> is read and written without a check.
\<close>

datatype fee_step = Break "CTxOut list" CAmount | Continue bool CAmount

definition change_position_ok :: "int \<Rightarrow> CTxOut list \<Rightarrow> bool" where
  "change_position_ok nChangePosInOut txNew_vout =
     (0 \<le> nChangePosInOut \<and> nat nChangePosInOut < length txNew_vout)"

definition add_to_change :: "int \<Rightarrow> CAmount \<Rightarrow> CTxOut list \<Rightarrow> CTxOut list" where
  "add_to_change nChangePosInOut amount txNew_vout =
     txNew_vout[nat nChangePosInOut :=
       (txNew_vout ! nat nChangePosInOut)
         \<lparr>nValue := nValue (txNew_vout ! nat nChangePosInOut) + amount\<rparr>]"

definition fee_section ::
  "build_env \<Rightarrow> CTxOut \<Rightarrow> CInputCoin list \<Rightarrow> CTxOut list \<Rightarrow> CAmount \<Rightarrow> int \<Rightarrow> nat \<Rightarrow> bool
     \<Rightarrow> build_error + fee_step" where
  "fee_section env change_prototype_txout setCoins txNew_vout nFeeRet nChangePosInOut
       nSubtractFeeFromAmount pick_new_inputs =
     (if \<not> DummySignTx env setCoins txNew_vout then Inl (Refused ''Signing transaction failed'')
      else
        (let nBytes = GetVirtualTransactionSize env setCoins txNew_vout;
             nFeeNeeded = GetMinimumFee env nBytes
         in if nFeeNeeded < minRelayTxFee_GetFee env nBytes
            then Inl (Refused ''Transaction too large for fee policy'')
            else if nFeeRet \<ge> nFeeNeeded
            then
              (let tx_size_with_change =
                     (nBytes + GetSerializeSize env change_prototype_txout + 2) mod 4294967296;
                   fee_needed_with_change = GetMinimumFee env tx_size_with_change;
                   minimum_value_for_change =
                     GetDustThreshold_discard_rate env change_prototype_txout
               in if nChangePosInOut = -1 \<and> nSubtractFeeFromAmount = 0 \<and> pick_new_inputs
                     \<and> nFeeRet \<ge> fee_needed_with_change + minimum_value_for_change
                  then Inr (Continue False fee_needed_with_change)
                  else if nFeeRet > nFeeNeeded \<and> nChangePosInOut \<noteq> -1
                          \<and> nSubtractFeeFromAmount = 0
                  then (if \<not> change_position_ok nChangePosInOut txNew_vout
                        then Inl (Undefined OutOfBoundsAccess)
                        else Inr (Break (add_to_change nChangePosInOut (nFeeRet - nFeeNeeded)
                                           txNew_vout)
                                        (nFeeRet - (nFeeRet - nFeeNeeded))))
                  else Inr (Break txNew_vout nFeeRet))
            else if \<not> pick_new_inputs
            then Inl (Refused ''Transaction fee and change calculation failed'')
            else if nChangePosInOut \<noteq> -1 \<and> nSubtractFeeFromAmount = 0
                    \<and> \<not> change_position_ok nChangePosInOut txNew_vout
            then Inl (Undefined OutOfBoundsAccess)
            else if nChangePosInOut \<noteq> -1 \<and> nSubtractFeeFromAmount = 0
                    \<and> nValue (txNew_vout ! nat nChangePosInOut)
                          \<ge> MIN_FINAL_CHANGE env + (nFeeNeeded - nFeeRet)
            then Inr (Break (add_to_change nChangePosInOut (- (nFeeNeeded - nFeeRet)) txNew_vout)
                            (nFeeRet + (nFeeNeeded - nFeeRet)))
            else Inr (Continue (if nSubtractFeeFromAmount > 0 then False else pick_new_inputs)
                               nFeeNeeded)))"

text \<open>
  What a successful call leaves: the selected coins, the inputs and outputs of
  \<open>txNew\<close>, \<open>nFeeRet\<close>, \<open>nChangePosInOut\<close>, and of the last pass the value \<open>nValueIn\<close> and
  the change output built at line 3049.
\<close>

record CreateTransaction_result =
  res_setCoins :: "CInputCoin list"
  res_vin :: "CTxIn list"
  res_vout :: "CTxOut list"
  res_nFeeRet :: CAmount
  res_nChangePosInOut :: int
  res_nValueIn :: CAmount
  res_newTxOut :: "CTxOut option"

text \<open>
  The loop \<open>while (true)\<close> of lines 2944 to 3193, with the number of passes it may still
  make; \<open>None\<close> when they are used up.  \<open>k\<close> counts the passes made.
\<close>

fun CreateTransaction_loop ::
  "nat \<Rightarrow> build_env \<Rightarrow> CWallet \<Rightarrow> CRecipient list \<Rightarrow> CCoinControl \<Rightarrow> AvailableCoinsType
     \<Rightarrow> COutput list \<Rightarrow> CAmount \<Rightarrow> nat \<Rightarrow> int \<Rightarrow> CTxOut \<Rightarrow> nat \<Rightarrow> CAmount \<Rightarrow> bool \<Rightarrow> CAmount
     \<Rightarrow> CInputCoin list \<Rightarrow> (build_error + CreateTransaction_result) option" where
  "CreateTransaction_loop 0 env w vecSend cc nCoinType vAvailableCoins nValue'
       nSubtractFeeFromAmount nChangePosRequest change_prototype_txout k nFeeRet
       pick_new_inputs nValueIn setCoins = None"
| "CreateTransaction_loop (Suc passes) env w vecSend cc nCoinType vAvailableCoins nValue'
       nSubtractFeeFromAmount nChangePosRequest change_prototype_txout k nFeeRet
       pick_new_inputs nValueIn setCoins =
     (case payee_vouts env vecSend nFeeRet nSubtractFeeFromAmount True [] of
        Inl e \<Rightarrow> Some (Inl e)
      | Inr vout0 \<Rightarrow>
          (let nValueToSelect = nValue' + (if nSubtractFeeFromAmount = 0 then nFeeRet else 0)
           in case (if pick_new_inputs
                    then (case SelectCoins env k w vAvailableCoins nValueToSelect [] 0 (Some cc)
                                 (SelectCoins_nCoinType env) of
                            Inl e \<Rightarrow> Inl e
                          | Inr (ok, S, v) \<Rightarrow>
                              if ok then Inr (S, v) else Inl (Refused ''Insufficient funds''))
                    else Inr (setCoins, nValueIn)) of
                Inl e \<Rightarrow> Some (Inl e)
              | Inr (setCoins1, nValueIn1) \<Rightarrow>
                  (case change_section env k cc nCoinType vecSend nSubtractFeeFromAmount
                          nChangePosRequest vout0 nFeeRet (nValueIn1 - nValueToSelect) of
                     Inl e \<Rightarrow> Some (Inl e)
                   | Inr (vout1, nFeeRet1, nChangePosInOut, newTxOut) \<Rightarrow>
                       (case fee_section env change_prototype_txout setCoins1 vout1 nFeeRet1
                               nChangePosInOut nSubtractFeeFromAmount pick_new_inputs of
                          Inl e \<Rightarrow> Some (Inl e)
                        | Inr (Break vout2 nFeeRet2) \<Rightarrow>
                            Some (Inr \<lparr>res_setCoins = setCoins1,
                                       res_vin = map (\<lambda>coin. \<lparr>prevout = outpoint coin,
                                                               scriptSig = []\<rparr>) setCoins1,
                                       res_vout = vout2, res_nFeeRet = nFeeRet2,
                                       res_nChangePosInOut = nChangePosInOut,
                                       res_nValueIn = nValueIn1, res_newTxOut = newTxOut\<rparr>)
                        | Inr (Continue pick_new_inputs1 nFeeRet2) \<Rightarrow>
                            CreateTransaction_loop passes env w vecSend cc nCoinType
                              vAvailableCoins nValue' nSubtractFeeFromAmount nChangePosRequest
                              change_prototype_txout (Suc k) nFeeRet2 pick_new_inputs1 nValueIn1
                              setCoins1))))"

text \<open>
  After the loop.  The signing loop of lines 3202 to 3216 visits the selected coins in
  order, \<open>nIn\<close> counting the inputs, and \<open>UpdateTransaction\<close> writes each signature into
  input \<open>nIn\<close>; then come the weight limit and the mempool chain limits.
\<close>

fun sign_inputs :: "build_env \<Rightarrow> CInputCoin list \<Rightarrow> nat \<Rightarrow> CTxIn list \<Rightarrow> CTxIn list option" where
  "sign_inputs env [] nIn txNew_vin = Some txNew_vin"
| "sign_inputs env (coin # rest) nIn txNew_vin =
     (case ProduceSignature env coin of
        None \<Rightarrow> None
      | Some sig \<Rightarrow>
          sign_inputs env rest (Suc nIn)
            (txNew_vin[nIn := (txNew_vin ! nIn)\<lparr>scriptSig := sig\<rparr>]))"

definition finish_transaction ::
  "build_env \<Rightarrow> bool \<Rightarrow> CreateTransaction_result \<Rightarrow> build_error + CreateTransaction_result" where
  "finish_transaction env sign r =
     (case (if sign then sign_inputs env (res_setCoins r) 0 (res_vin r) else Some (res_vin r)) of
        None \<Rightarrow> Inl (Refused ''Signing transaction failed'')
      | Some txNew_vin \<Rightarrow>
          if GetTransactionWeight env txNew_vin (res_vout r) \<ge> MAX_STANDARD_TX_WEIGHT env
          then Inl (Refused ''Transaction too large'')
          else if walletrejectlongchains env
                  \<and> \<not> CalculateMemPoolAncestors env txNew_vin (res_vout r)
          then Inl (Refused ''Transaction has too long of a mempool chain'')
          else Inr (r\<lparr>res_vin := txNew_vin\<rparr>))"

text \<open>
  \<open>CreateTransaction\<close>.  \<open>vAvailableCoins\<close> is what \<open>AvailableCoins\<close> returned, \<open>passes\<close>
  bounds the passes of the fee loop.  The lock time and the fields of \<open>wtxNew\<close> other
  than the transaction do not enter the amounts and are left out.
\<close>

definition CreateTransaction ::
  "nat \<Rightarrow> build_env \<Rightarrow> CWallet \<Rightarrow> COutput list \<Rightarrow> CRecipient list \<Rightarrow> int \<Rightarrow> CCoinControl \<Rightarrow> bool
     \<Rightarrow> AvailableCoinsType \<Rightarrow> (build_error + CreateTransaction_result) option" where
  "CreateTransaction passes env w vAvailableCoins vecSend nChangePosRequest cc sign nCoinType =
     (case sum_recipients vecSend 0 0 of
        Inl e \<Rightarrow> Some (Inl e)
      | Inr (nValue', nSubtractFeeFromAmount) \<Rightarrow>
          if vecSend = [] then Some (Inl (Refused ''Transaction must have at least one recipient''))
          else
            (case (case destChange cc of Some s \<Rightarrow> Some s | None \<Rightarrow> GetReservedKey_first env) of
               None \<Rightarrow> Some (Inl (Refused ''Keypool ran out, please call keypoolrefill first''))
             | Some scriptChange \<Rightarrow>
                 (case CreateTransaction_loop passes env w vecSend cc nCoinType vAvailableCoins
                         nValue' nSubtractFeeFromAmount nChangePosRequest
                         \<lparr>nValue = 0, scriptPubKey = scriptChange\<rparr> 0 0 True 0 [] of
                    None \<Rightarrow> None
                  | Some (Inl e) \<Rightarrow> Some (Inl e)
                  | Some (Inr r) \<Rightarrow> Some (finish_transaction env sign r))))"

subsection \<open>An example environment\<close>

text \<open>
  Outputs below 10 units are dust, the fee is one unit per 50 bytes, an input weighs 100
  bytes and an output 30.  The wallet holds one coin; the recipient either pays the fee
  or not.
\<close>

definition example_build_env :: build_env where
  "example_build_env =
     \<lparr>select_envs = (\<lambda>k j. demo_env),
      vecPrivateSendDenominations = [1000, 100, 10],
      GetInputPrivateSendRounds = (\<lambda>op. 0),
      nPrivateSendRounds = 2,
      wallet_bSpendZeroConfChange = True,
      nMaxChainLength = 25,
      walletrejectlongchains = False,
      SelectCoins_nCoinType = ALL_COINS,
      IsDust_dustRelayFee = (\<lambda>out. nValue out < 10),
      CTxOut_IsDust = (\<lambda>out. nValue out < 10),
      GetDustThreshold_minRelayTxFee = (\<lambda>out. 10),
      GetDustThreshold_discard_rate = (\<lambda>out. 10),
      GetReservedKey_first = Some [2],
      GetReservedKey = (\<lambda>k. Some [2]),
      rand_change_pos = (\<lambda>k. 1),
      DummySignTx = (\<lambda>S outs. True),
      GetVirtualTransactionSize = (\<lambda>S outs. 100 * length S + 30 * length outs),
      GetMinimumFee = (\<lambda>nBytes. int nBytes div 50),
      minRelayTxFee_GetFee = (\<lambda>nBytes. int nBytes div 100),
      GetSerializeSize = (\<lambda>out. 30),
      MIN_FINAL_CHANGE = 20,
      ProduceSignature = (\<lambda>coin. Some [4]),
      GetTransactionWeight = (\<lambda>ins outs. 400 * length ins + 120 * length outs),
      MAX_STANDARD_TX_WEIGHT = 400000,
      CalculateMemPoolAncestors = (\<lambda>ins outs. True)\<rparr>"

text \<open>
  A wallet that holds transaction 7, confirmed in block 495 (six blocks deep), whose
  output 0 is worth \<open>v\<close>; \<open>cand 7 v\<close> is that output as \<open>AvailableCoins\<close> lists it.
\<close>

definition wallet_with_coin_7 :: "CAmount \<Rightarrow> CWallet" where
  "wallet_with_coin_7 v =
     \<lparr>mapWallet = [(7, (example_wtx 7 [spend_of 6 0] [pay v])\<lparr>hashBlock := 495, nIndex := 1\<rparr>)],
      mapTxSpends = [(\<lparr>hash = 6, n_out = 0\<rparr>, 7)],
      wtxOrdered = [(0, Inl 7)],
      nOrderPosNext = 1\<rparr>"

definition no_coin_control :: CCoinControl where
  "no_coin_control = \<lparr>setSelected = [], fAllowOtherInputs = False, destChange = None\<rparr>"

definition payee :: "CAmount \<Rightarrow> bool \<Rightarrow> CRecipient" where
  "payee v fSubtract = \<lparr>r_scriptPubKey = [3], nAmount = v, fSubtractFeeFromAmount = fSubtract\<rparr>"

text \<open>Coin control that selects output 0 of transaction 7 and allows no other input.\<close>

definition only_coin_7 :: CCoinControl where
  "only_coin_7 =
     \<lparr>setSelected = [\<lparr>hash = 7, n_out = 0\<rparr>], fAllowOtherInputs = False, destChange = None\<rparr>"

text \<open>
  The same environment with the two dust tests of lines 3054 to 3073 apart: the member
  \<open>IsDust()\<close> calls an output dust below 30 units (three times the other rate), while
  \<open>GetDustThreshold(newTxOut, ::minRelayTxFee)\<close> stays at 10.
\<close>

definition mixed_dust_env :: build_env where
  "mixed_dust_env =
     example_build_env\<lparr>IsDust_dustRelayFee := (\<lambda>out. nValue out < 30),
                        CTxOut_IsDust := (\<lambda>out. nValue out < 30)\<rparr>"

definition has_key :: "(uint256 \<times> CWalletTx) list \<Rightarrow> uint256 \<Rightarrow> bool" where
  "has_key m k = (map_find m k \<noteq> None)"

definition same_cache_and_order :: "CWalletTx \<Rightarrow> CWalletTx \<Rightarrow> bool" where
  "same_cache_and_order a b = (cached_amounts a = cached_amounts b \<and> nOrderPos a = nOrderPos b)"

definition multimap_sorted :: "TxSpends \<Rightarrow> bool" where
  "multimap_sorted m = sorted_wrt (\<lambda>a b. \<not> outpoint_less (fst b) (fst a)) m"

definition core :: "CWalletTx \<Rightarrow> CTransaction \<times> uint256 \<times> int" where
  "core wtx = (tx wtx, hashBlock wtx, nIndex wtx)"

definition cview :: "(uint256 \<times> CWalletTx) list \<Rightarrow> uint256 \<Rightarrow> (CTransaction \<times> uint256 \<times> int) option" where
  "cview m k = map_option core (map_find m k)"

inductive conflict_reach :: "chain_view \<Rightarrow> CWallet \<Rightarrow> int \<Rightarrow> uint256 \<Rightarrow> uint256 \<Rightarrow> bool"
  for cv w cc root where
  reach_root: "map_find (mapWallet w) root = Some wtx \<Longrightarrow> cc < GetDepthInMainChain cv wtx
     \<Longrightarrow> conflict_reach cv w cc root root"
| reach_spender: "conflict_reach cv w cc root x \<Longrightarrow> (op, y) \<in> set (mapTxSpends w)
     \<Longrightarrow> hash op = x \<Longrightarrow> map_find (mapWallet w) y = Some wty
     \<Longrightarrow> cc < GetDepthInMainChain cv wty \<Longrightarrow> conflict_reach cv w cc root y"

definition mc_inv ::
  "chain_view \<Rightarrow> uint256 \<Rightarrow> int \<Rightarrow> TxSpends \<Rightarrow> (uint256 \<times> CWalletTx) list \<Rightarrow> uint256
     \<Rightarrow> uint256 list \<Rightarrow> uint256 list \<Rightarrow> (uint256 \<times> CWalletTx) list \<Rightarrow> bool" where
  "mc_inv cv hb cc spends mw0 root todo done mw =
     ((\<forall>k. k \<notin> set done \<longrightarrow> cview mw k = cview mw0 k)
      \<and> (\<forall>k. has_key mw k = has_key mw0 k)
      \<and> (\<forall>k\<in>set done. \<forall>r0. map_find mw0 k = Some r0 \<longrightarrow> cc < GetDepthInMainChain cv r0 \<longrightarrow>
            (\<exists>t. cview mw k = Some (t, hb, -1))
            \<and> (\<forall>e\<in>set spends. hash (fst e) = k \<longrightarrow> snd e \<in> set todo \<union> set done))
      \<and> set todo \<inter> set done = {}
      \<and> (\<forall>k\<in>set todo. has_key mw0 k)
      \<and> root \<in> set todo \<union> set done)"



text \<open>The number of recipients that pay the fee, and the sum of the outputs.\<close>

definition count_subtract :: "CRecipient list \<Rightarrow> nat" where
  "count_subtract rs = length (filter fSubtractFeeFromAmount rs)"

definition sum_vout :: "CTxOut list \<Rightarrow> CAmount" where
  "sum_vout outs = sum_list (map nValue outs)"

definition sum_coins :: "CInputCoin list \<Rightarrow> CAmount" where
  "sum_coins S = sum_list (map coin_value S)"

text \<open>
  The second half of the loop invariant of \<open>MarkConflicted\<close>: a visited transaction that
  is not reachable keeps its transaction, block and position, and everything queued or
  visited is the root or spends an output of a reachable transaction.
\<close>

definition mc_exact ::
  "chain_view \<Rightarrow> int \<Rightarrow> CWallet \<Rightarrow> uint256 \<Rightarrow> uint256 list \<Rightarrow> uint256 list
     \<Rightarrow> (uint256 \<times> CWalletTx) list \<Rightarrow> bool" where
  "mc_exact cv cc w root todo dn mw =
     ((\<forall>k\<in>set dn. \<not> conflict_reach cv w cc root k \<longrightarrow> cview mw k = cview (mapWallet w) k)
      \<and> (\<forall>k\<in>set todo \<union> set dn.
            k = root
            \<or> (\<exists>e\<in>set (mapTxSpends w).
                  snd e = k \<and> conflict_reach cv w cc root (hash (fst e)))))"
lemma flag_sum_set_True:
  assumes "i < length vValue" "\<not> fl ! i" "length fl = length vValue"
  shows "flag_sum vValue (fl[i := True]) = flag_sum vValue fl + coin_value (vValue ! i)"
proof -
  let ?f = "\<lambda>j. if fl[i := True] ! j then coin_value (vValue ! j) else 0"
  let ?g = "\<lambda>j. if fl ! j then coin_value (vValue ! j) else 0"
  have fin: "finite {..<length vValue}" and mem: "i \<in> {..<length vValue}" using assms by auto
  have rest: "sum ?f ({..<length vValue} - {i}) = sum ?g ({..<length vValue} - {i})"
    by (rule sum.cong) auto
  have "sum ?f {..<length vValue} = ?f i + sum ?f ({..<length vValue} - {i})"
    by (rule sum.remove[OF fin mem])
  moreover have "sum ?g {..<length vValue} = ?g i + sum ?g ({..<length vValue} - {i})"
    by (rule sum.remove[OF fin mem])
  ultimately show ?thesis using rest assms by (simp add: flag_sum_def)
qed

lemma flag_sum_set_False:
  assumes "i < length vValue" "fl ! i" "length fl = length vValue"
  shows "flag_sum vValue (fl[i := False]) = flag_sum vValue fl - coin_value (vValue ! i)"
proof -
  let ?f = "\<lambda>j. if fl[i := False] ! j then coin_value (vValue ! j) else 0"
  let ?g = "\<lambda>j. if fl ! j then coin_value (vValue ! j) else 0"
  have fin: "finite {..<length vValue}" and mem: "i \<in> {..<length vValue}" using assms by auto
  have rest: "sum ?f ({..<length vValue} - {i}) = sum ?g ({..<length vValue} - {i})"
    by (rule sum.cong) auto
  have "sum ?f {..<length vValue} = ?f i + sum ?f ({..<length vValue} - {i})"
    by (rule sum.remove[OF fin mem])
  moreover have "sum ?g {..<length vValue} = ?g i + sum ?g ({..<length vValue} - {i})"
    by (rule sum.remove[OF fin mem])
  ultimately show ?thesis using rest assms by (simp add: flag_sum_def)
qed

lemma flag_sum_all_False: "flag_sum vValue (replicate (length vValue) False) = 0"
  by (simp add: flag_sum_def)

lemma flag_sum_all_True:
  "flag_sum vValue (replicate (length vValue) True) = sum_list (map coin_value vValue)"
  by (simp add: flag_sum_def sum_list_sum_nth atLeast0LessThan)

lemma abs_take_ok:
  assumes "best_ok vValue t s" "run_ok vValue s" "i < length vValue" "\<not> vfIncluded s ! i"
  shows "best_ok vValue t (abs_take vValue t i s) \<and> run_ok vValue (abs_take vValue t i s)
         \<and> (\<forall>j. j \<noteq> i \<longrightarrow> vfIncluded (abs_take vValue t i s) ! j = vfIncluded s ! j)"
  using assms
  by (auto simp: abs_take_def best_ok_def run_ok_def Let_def flag_sum_set_True flag_sum_set_False)

lemma abs_take_draws: "nDraws (abs_take vValue t i s) = nDraws s"
  by (simp add: abs_take_def Let_def)

lemma abs_step0_ok:
  assumes "best_ok vValue t s" "run_ok vValue s" "i < length vValue" "\<not> vfIncluded s ! i"
  shows "best_ok vValue t (abs_step rb vValue t 0 i s) \<and> run_ok vValue (abs_step rb vValue t 0 i s)
         \<and> (\<forall>j. j \<noteq> i \<longrightarrow> vfIncluded (abs_step rb vValue t 0 i s) ! j = vfIncluded s ! j)"
proof -
  let ?s' = "s\<lparr>nDraws := Suc (nDraws s)\<rparr>"
  have b: "best_ok vValue t ?s'" "run_ok vValue ?s'" "\<not> vfIncluded ?s' ! i"
    using assms by (auto simp: best_ok_def run_ok_def)
  show ?thesis
    using abs_take_ok[OF b(1) b(2) assms(3) b(3)] b
    by (simp add: abs_step_def Let_def)
qed

lemma abs_step1_ok:
  assumes "best_ok vValue t s" "run_ok vValue s" "i < length vValue"
  shows "best_ok vValue t (abs_step rb vValue t (Suc 0) i s)
         \<and> run_ok vValue (abs_step rb vValue t (Suc 0) i s)"
  using abs_take_ok[OF assms(1) assms(2) assms(3)] assms
  by (simp add: abs_step_def)

lemma abs_pass0_ok:
  assumes "best_ok vValue t s" "run_ok vValue s" "\<forall>j<length vValue. \<not> vfIncluded s ! j"
    and "k \<le> length vValue"
  shows "best_ok vValue t (fold (abs_step rb vValue t 0) [0..<k] s)
       \<and> run_ok vValue (fold (abs_step rb vValue t 0) [0..<k] s)
       \<and> (\<forall>j. k \<le> j \<and> j < length vValue \<longrightarrow> \<not> vfIncluded (fold (abs_step rb vValue t 0) [0..<k] s) ! j)"
  using assms(4)
proof (induction k)
  case 0
  then show ?case using assms by simp
next
  case (Suc k)
  let ?s = "fold (abs_step rb vValue t 0) [0..<k] s"
  from Suc have IH: "best_ok vValue t ?s" "run_ok vValue ?s"
    "\<forall>j. k \<le> j \<and> j < length vValue \<longrightarrow> \<not> vfIncluded ?s ! j" and k: "k < length vValue" by auto
  from IH(3) k have nk: "\<not> vfIncluded ?s ! k" by simp
  from abs_step0_ok[OF IH(1) IH(2) k nk, of rb] IH(3)
  show ?case by simp
qed

lemma abs_pass1_ok:
  assumes "best_ok vValue t s" "run_ok vValue s" and "k \<le> length vValue"
  shows "best_ok vValue t (fold (abs_step rb vValue t (Suc 0)) [0..<k] s)
       \<and> run_ok vValue (fold (abs_step rb vValue t (Suc 0)) [0..<k] s)"
  using assms(3)
proof (induction k)
  case 0
  then show ?case using assms by simp
next
  case (Suc k)
  let ?s = "fold (abs_step rb vValue t (Suc 0)) [0..<k] s"
  from Suc have IH: "best_ok vValue t ?s" "run_ok vValue ?s" and k: "k < length vValue" by auto
  from abs_step1_ok[OF IH(1) IH(2) k, of rb]
  show ?case by simp
qed

lemma abs_rep_ok:
  assumes "best_ok vValue t s"
  shows "best_ok vValue t (abs_rep rb vValue t s)"
proof -
  let ?s0 = "s\<lparr>vfIncluded := replicate (length vValue) False, nTotal := 0, fReachedTarget := False\<rparr>"
  have a: "best_ok vValue t ?s0" "run_ok vValue ?s0" "\<forall>j<length vValue. \<not> vfIncluded ?s0 ! j"
    using assms by (auto simp: best_ok_def run_ok_def flag_sum_all_False)
  let ?s1 = "abs_pass rb vValue t 0 ?s0"
  have b: "best_ok vValue t ?s1" "run_ok vValue ?s1"
    using abs_pass0_ok[OF a, of "length vValue" rb] by (auto simp: abs_pass_def)
  have c: "best_ok vValue t (abs_pass rb vValue t 1 ?s1)"
    using abs_pass1_ok[OF b, of "length vValue" rb] by (auto simp: abs_pass_def)
  show ?thesis using b c by (simp add: abs_rep_def Let_def)
qed

lemma abs_reps_ok:
  "best_ok vValue t s \<Longrightarrow> best_ok vValue t (abs_reps rb vValue t k s)"
  by (induction k arbitrary: s) (auto simp: abs_rep_ok)

lemma ApproximateBestSubset_ok:
  assumes "nTotalLower = sum_list (map coin_value vValue)" "t \<le> nTotalLower"
    and "ApproximateBestSubset rb vValue nTotalLower t k = (fl, b)"
  shows "length fl = length vValue \<and> b = flag_sum vValue fl \<and> t \<le> b"
proof -
  let ?s = "\<lparr>nTotal = 0, vfIncluded = [], fReachedTarget = False, nBest = nTotalLower,
                 vfBest = replicate (length vValue) True, nDraws = 0\<rparr>"
  have "best_ok vValue t ?s" using assms(1,2) by (simp add: best_ok_def flag_sum_all_True)
  from abs_reps_ok[OF this, of rb k] assms(3) show ?thesis
    by (auto simp: ApproximateBestSubset_def best_ok_def Let_def)
qed

lemma mset_swap_at:
  "i < length xs \<Longrightarrow> j < length xs \<Longrightarrow> mset (swap_at i j xs) = mset xs"
  unfolding swap_at_def by (rule mset_swap)

lemma length_swap_at: "length (swap_at i j xs) = length xs"
  by (simp add: swap_at_def)

lemma mset_random_shuffle_from:
  "i + k \<le> length xs \<Longrightarrow> mset (random_shuffle_from rnd k i xs) = mset xs"
proof (induction k arbitrary: i xs)
  case 0
  then show ?case by simp
next
  case (Suc k)
  have lt: "i < length xs" "rnd i mod Suc i < length xs"
    using Suc.prems by (auto intro: less_le_trans[OF mod_less_divisor])
  have "mset (random_shuffle_from rnd k (Suc i) (swap_at i (rnd i mod Suc i) xs))
          = mset (swap_at i (rnd i mod Suc i) xs)"
    using Suc.prems by (intro Suc.IH) (simp add: length_swap_at)
  then show ?case using lt by (simp add: mset_swap_at)
qed

lemma mset_random_shuffle: "mset (random_shuffle rnd xs) = mset xs"
  unfolding random_shuffle_def
  using mset_random_shuffle_from[of 1 "length xs - 1" xs rnd] by (cases xs) simp_all

lemma set_random_shuffle: "set (random_shuffle rnd xs) = set xs"
  using mset_random_shuffle[of rnd xs] by (metis set_mset_mset)

lemma sum_list_filter_mset_cong:
  fixes f :: "'a \<Rightarrow> int"
  assumes "mset xs = mset ys"
  shows "sum_list (map f (filter P xs)) = sum_list (map f (filter P ys))"
proof -
  have "mset (map f (filter P xs)) = mset (map f (filter P ys))"
    using assms by (metis mset_filter mset_map)
  then show ?thesis by (metis sum_mset_sum_list)
qed

lemma set_insert_Nil [simp]: "set_insert c [] = [c]"
  by (simp add: set_insert_def)

lemma coin_value_mk [simp]: "coin_value (mk_CInputCoin output) = nValue (tx_out output)"
  by (simp add: coin_value_def mk_CInputCoin_def)

lemma scan_coins_Exact:
  "scan_coins env t cm ct ma xs vV tot low = Exact c \<Longrightarrow>
     \<exists>output\<in>set xs. coin_eligible env cm ct ma output \<and> nValue (tx_out output) = t
        \<and> c = mk_CInputCoin output"
  by (induction xs arbitrary: vV tot low) (auto simp: Let_def split: if_splits)

lemma scan_coins_Scanned:
  "scan_coins env t cm ct ma xs vV tot low = Scanned vV' tot' low' \<Longrightarrow>
     vV' = vV @ map mk_CInputCoin (filter (coin_small env t cm ct ma) xs)
   \<and> tot' = tot + sum_list (map (\<lambda>output. nValue (tx_out output))
                              (filter (coin_small env t cm ct ma) xs))
   \<and> (\<forall>output\<in>set xs. coin_eligible env cm ct ma output \<longrightarrow> nValue (tx_out output) \<noteq> t)
   \<and> (case low' of
        None \<Rightarrow> low = None \<and> (\<forall>output\<in>set xs. \<not> coin_large env t cm ct ma output)
      | Some l \<Rightarrow>
          (low = Some l \<or> (\<exists>output\<in>set xs. coin_large env t cm ct ma output \<and> l = mk_CInputCoin output))
          \<and> (\<forall>output\<in>set xs. coin_large env t cm ct ma output \<longrightarrow> coin_value l \<le> nValue (tx_out output))
          \<and> (\<forall>l0. low = Some l0 \<longrightarrow> coin_value l \<le> coin_value l0))"
proof (induction xs arbitrary: vV tot low)
  case Nil
  then show ?case by (auto split: option.splits)
next
  case (Cons x xs)
  show ?case
  proof (cases "coin_eligible env cm ct ma x")
    case False
    with Cons.prems have "scan_coins env t cm ct ma xs vV tot low = Scanned vV' tot' low'" by simp
    from Cons.IH[OF this] False show ?thesis
      by (auto simp: coin_small_def coin_large_def split: option.splits)
  next
    case el: True
    show ?thesis
    proof (cases "nValue (tx_out x) = t")
      case True
      with el Cons.prems show ?thesis by (simp add: Let_def)
    next
      case ne: False
      show ?thesis
      proof (cases "nValue (tx_out x) < t + MIN_CHANGE env")
        case True
        with el ne Cons.prems have
          "scan_coins env t cm ct ma xs (vV @ [mk_CInputCoin x]) (tot + nValue (tx_out x)) low
             = Scanned vV' tot' low'" by (simp add: Let_def)
        from Cons.IH[OF this] el ne True show ?thesis
          by (auto simp: coin_small_def coin_large_def split: option.splits)
      next
        case big: False
        show ?thesis
        proof (cases "case low of None \<Rightarrow> True | Some l \<Rightarrow> coin_value (mk_CInputCoin x) < coin_value l")
          case True
          with el ne big Cons.prems have
            "scan_coins env t cm ct ma xs vV tot (Some (mk_CInputCoin x)) = Scanned vV' tot' low'"
            by (simp add: Let_def)
          from Cons.IH[OF this] el ne big True show ?thesis
            by (cases low'; cases low) (auto simp: coin_small_def coin_large_def)
        next
          case False
          with el ne big Cons.prems have
            "scan_coins env t cm ct ma xs vV tot low = Scanned vV' tot' low'"
            by (simp add: Let_def)
          from Cons.IH[OF this] el ne big False show ?thesis
            by (cases low'; cases low) (auto simp: coin_small_def coin_large_def)
        qed
      qed
    qed
  qed
qed

lemma member_le_sum_list_int:
  fixes xs :: "int list"
  shows "x \<in> set xs \<Longrightarrow> \<forall>y\<in>set xs. 0 \<le> y \<Longrightarrow> x \<le> sum_list xs"
proof (induction xs)
  case Nil then show ?case by simp
next
  case (Cons a xs)
  have "0 \<le> sum_list xs" using Cons.prems(2) by (simp add: sum_list_nonneg)
  then show ?case using Cons by auto
qed

lemma scan_shuffled:
  assumes "scan_coins env t cm ct ma (random_shuffle rnd vCoins) [] 0 None = Scanned vV tot low"
  shows "tot = sum_list (map (\<lambda>output. nValue (tx_out output)) (filter (coin_small env t cm ct ma) vCoins))"
    and "set vV = mk_CInputCoin ` {output \<in> set vCoins. coin_small env t cm ct ma output}"
    and "low = None \<Longrightarrow> \<forall>output\<in>set vCoins. \<not> coin_large env t cm ct ma output"
    and "low = Some l \<Longrightarrow> (\<exists>output\<in>set vCoins. coin_large env t cm ct ma output \<and> l = mk_CInputCoin output)
          \<and> (\<forall>output\<in>set vCoins. coin_large env t cm ct ma output \<longrightarrow> coin_value l \<le> nValue (tx_out output))"
proof -
  note s = scan_coins_Scanned[OF assms]
  show "tot = sum_list (map (\<lambda>output. nValue (tx_out output)) (filter (coin_small env t cm ct ma) vCoins))"
    using s sum_list_filter_mset_cong[OF mset_random_shuffle, of "\<lambda>output. nValue (tx_out output)" _ rnd vCoins]
    by simp
  show "set vV = mk_CInputCoin ` {output \<in> set vCoins. coin_small env t cm ct ma output}"
    using s by (auto simp: set_random_shuffle)
  show "low = None \<Longrightarrow> \<forall>output\<in>set vCoins. \<not> coin_large env t cm ct ma output"
    using s by (simp add: set_random_shuffle)
  show "low = Some l \<Longrightarrow> (\<exists>output\<in>set vCoins. coin_large env t cm ct ma output \<and> l = mk_CInputCoin output)
          \<and> (\<forall>output\<in>set vCoins. coin_large env t cm ct ma output \<longrightarrow> coin_value l \<le> nValue (tx_out output))"
    using s by (simp add: set_random_shuffle)
qed

lemma select_rule5:
  assumes mc: "0 \<le> MIN_CHANGE env"
    and nonneg: "\<forall>output\<in>set vCoins. 0 \<le> nValue (tx_out output)"
    and noexact: "\<forall>output\<in>set (filtered_candidates env cm ct ma vCoins). nValue (tx_out output) \<noteq> t"
    and small: "sum_list (map (\<lambda>output. nValue (tx_out output))
                  (filter (\<lambda>output. nValue (tx_out output) < t + MIN_CHANGE env)
                     (filtered_candidates env cm ct ma vCoins))) < t"
  shows "if \<exists>output\<in>set (filtered_candidates env cm ct ma vCoins). t < nValue (tx_out output)
         then \<exists>output\<in>set (filtered_candidates env cm ct ma vCoins).
                t < nValue (tx_out output)
                \<and> (\<forall>other\<in>set (filtered_candidates env cm ct ma vCoins).
                      t < nValue (tx_out other) \<longrightarrow> nValue (tx_out output) \<le> nValue (tx_out other))
                \<and> SelectCoinsMinConf env t cm ct ma vCoins
                     = (True, [mk_CInputCoin output], nValue (tx_out output))
         else SelectCoinsMinConf env t cm ct ma vCoins = (False, [], 0)"
proof -
  let ?sc = "scan_coins env t cm ct ma (random_shuffle (shuffle_draws env) vCoins) [] 0 None"
  let ?smalls = "filter (coin_small env t cm ct ma) vCoins"
  have fs: "filter (\<lambda>output. nValue (tx_out output) < t + MIN_CHANGE env)
              (filtered_candidates env cm ct ma vCoins) = ?smalls"
    by (auto simp: filtered_candidates_def coin_small_def intro: filter_cong)
  have notexact: "?sc \<noteq> Exact c" for c
  proof
    assume "?sc = Exact c"
    from scan_coins_Exact[OF this] noexact show False
      by (auto simp: set_random_shuffle filtered_candidates_def)
  qed
  then obtain vV tot low where sc: "?sc = Scanned vV tot low" by (cases ?sc) auto
  note s = scan_shuffled[OF sc]
  have tot: "tot < t" using s(1) small fs by simp
  have small_lt: "nValue (tx_out cand) < t"
    if "cand \<in> set vCoins" "coin_small env t cm ct ma cand" for cand
  proof -
    have "nValue (tx_out cand) \<in> set (map (\<lambda>cand. nValue (tx_out cand)) ?smalls)"
      using that by auto
    moreover have "\<forall>y\<in>set (map (\<lambda>cand. nValue (tx_out cand)) ?smalls). 0 \<le> y"
      using nonneg by auto
    ultimately have "nValue (tx_out cand) \<le> tot"
      unfolding s(1) by (rule member_le_sum_list_int)
    then show ?thesis using tot by simp
  qed
  have big_iff: "coin_large env t cm ct ma cand \<longleftrightarrow>
                   coin_eligible env cm ct ma cand \<and> t < nValue (tx_out cand)"
    if "cand \<in> set vCoins" for cand
    using that small_lt[of cand] mc noexact
    by (auto simp: coin_large_def coin_small_def filtered_candidates_def)
  show ?thesis
  proof (cases low)
    case None
    then have "\<forall>output\<in>set vCoins. \<not> coin_large env t cm ct ma output" using s(3) by simp
    then have "\<not> (\<exists>output\<in>set (filtered_candidates env cm ct ma vCoins). t < nValue (tx_out output))"
      using big_iff by (auto simp: filtered_candidates_def)
    moreover have "SelectCoinsMinConf env t cm ct ma vCoins = (False, [], 0)"
      using sc tot None by (simp add: SelectCoinsMinConf_def)
    ultimately show ?thesis by simp
  next
    case (Some l)
    from s(4)[OF Some] obtain cand where o: "cand \<in> set vCoins"
      "coin_large env t cm ct ma cand" "l = mk_CInputCoin cand"
      and least: "\<forall>other\<in>set vCoins. coin_large env t cm ct ma other \<longrightarrow> coin_value l \<le> nValue (tx_out other)"
      by blast
    have r: "SelectCoinsMinConf env t cm ct ma vCoins
               = (True, [mk_CInputCoin cand], nValue (tx_out cand))"
      using sc tot Some o(3) by (simp add: SelectCoinsMinConf_def)
    have m: "cand \<in> set (filtered_candidates env cm ct ma vCoins)" "t < nValue (tx_out cand)"
      using o big_iff by (auto simp: filtered_candidates_def)
    have "\<forall>other\<in>set (filtered_candidates env cm ct ma vCoins).
            t < nValue (tx_out other) \<longrightarrow> nValue (tx_out cand) \<le> nValue (tx_out other)"
      using least big_iff o(3) by (auto simp: filtered_candidates_def)
    with r m show ?thesis by auto
  qed
qed

lemma set_insert_sorted: "set (insert_sorted c S) = insert c (set S)"
  by (induction S) auto

lemma sum_insert_sorted:
  "sum_list (map coin_value (insert_sorted c S)) = coin_value c + sum_list (map coin_value S)"
  by (induction S) auto

lemma set_insert_present:
  "(\<exists>d\<in>set S. outpoint d = outpoint c) \<longleftrightarrow> outpoint c \<in> outpoint ` set S"
  by force

lemma set_set_insert:
  "set (set_insert c S) = (if outpoint c \<in> outpoint ` set S then set S else insert c (set S))"
  unfolding set_insert_def set_insert_present by (simp add: set_insert_sorted)

lemma sum_set_insert:
  "outpoint c \<notin> outpoint ` set S \<Longrightarrow>
     sum_list (map coin_value (set_insert c S)) = coin_value c + sum_list (map coin_value S)"
  unfolding set_insert_def set_insert_present by (simp add: sum_insert_sorted)

lemma flag_sum_Cons:
  "flag_sum (c # cs) (b # bs) = (if b then coin_value c else 0) + flag_sum cs bs"
  by (simp add: flag_sum_def sum.lessThan_Suc_shift del: sum.lessThan_Suc cong: if_cong)

lemma insert_all_sum:
  assumes "distinct (map outpoint cs)" "outpoint ` set cs \<inter> outpoint ` set S = {}"
    and "insert_all cs (S, v) = (S', v')"
  shows "v' = v + sum_list (map coin_value cs)
       \<and> sum_list (map coin_value S') = sum_list (map coin_value S) + sum_list (map coin_value cs)
       \<and> set S' = set S \<union> set cs"
  using assms
proof (induction cs arbitrary: S v)
  case Nil
  then show ?case by simp
next
  case (Cons c cs)
  have notin: "outpoint c \<notin> outpoint ` set S" using Cons.prems(2) by auto
  have d: "distinct (map outpoint cs)"
    "outpoint ` set cs \<inter> outpoint ` set (set_insert c S) = {}"
    using Cons.prems(1,2) notin by (auto simp: set_set_insert)
  have "insert_all cs (set_insert c S, v + coin_value c) = (S', v')" using Cons.prems(3) by simp
  from Cons.IH[OF d this] notin show ?case
    by (auto simp: sum_set_insert set_set_insert)
qed

lemma insert_best_sum:
  assumes "distinct (map outpoint cs)" "outpoint ` set cs \<inter> outpoint ` set S = {}"
    and "length fl = length cs"
    and "insert_best cs fl (S, v) = (S', v')"
  shows "v' = v + flag_sum cs fl
       \<and> sum_list (map coin_value S') = sum_list (map coin_value S) + flag_sum cs fl
       \<and> set S' \<subseteq> set S \<union> set cs"
  using assms
proof (induction cs arbitrary: S v fl)
  case Nil
  then show ?case by (simp add: flag_sum_def)
next
  case (Cons c cs)
  from Cons.prems(3) obtain b bs where fl: "fl = b # bs" "length bs = length cs"
    by (cases fl) auto
  have notin: "outpoint c \<notin> outpoint ` set S" using Cons.prems(2) by auto
  show ?case
  proof (cases b)
    case True
    have d: "distinct (map outpoint cs)"
      "outpoint ` set cs \<inter> outpoint ` set (set_insert c S) = {}"
      using Cons.prems(1,2) notin by (auto simp: set_set_insert)
    have "insert_best cs bs (set_insert c S, v + coin_value c) = (S', v')"
      using Cons.prems(4) fl True by simp
    from Cons.IH[OF d fl(2) this] notin True fl show ?thesis
      by (auto simp: sum_set_insert set_set_insert flag_sum_Cons)
  next
    case False
    have d: "distinct (map outpoint cs)" "outpoint ` set cs \<inter> outpoint ` set S = {}"
      using Cons.prems(1,2) by auto
    have "insert_best cs bs (S, v) = (S', v')"
      using Cons.prems(4) fl False by simp
    from Cons.IH[OF d fl(2) this] False fl show ?thesis
      by (auto simp: flag_sum_Cons)
  qed
qed

lemma mset_sort_descending: "mset (sort_descending vValue) = mset vValue"
  by (simp add: sort_descending_def)

lemma distinct_map_mset_cong:
  assumes "mset xs = mset ys" "distinct (map f xs)"
  shows "distinct (map f ys)"
proof -
  have "mset (map f xs) = mset (map f ys)" using assms(1) by (metis mset_map)
  then show ?thesis using assms(2) by (metis mset_eq_imp_distinct_iff)
qed

lemma sum_list_map_mset_cong:
  fixes f :: "'a \<Rightarrow> int"
  assumes "mset xs = mset ys"
  shows "sum_list (map f xs) = sum_list (map f ys)"
  using sum_list_filter_mset_cong[OF assms, of f "\<lambda>_. True"] by simp

lemma SelectCoinsMinConf_post:
  assumes mc: "0 \<le> MIN_CHANGE env"
    and dist: "distinct (map (\<lambda>cand. outpoint (mk_CInputCoin cand)) vCoins)"
    and res: "SelectCoinsMinConf env t cm ct ma vCoins = (ok, cs, v)"
  shows "(ok \<longrightarrow> t \<le> v \<and> sum_list (map coin_value cs) = v)
       \<and> (\<not> ok \<longrightarrow> cs = [] \<and> v = 0)
       \<and> set cs \<subseteq> mk_CInputCoin ` set vCoins"
proof -
  let ?xs = "random_shuffle (shuffle_draws env) vCoins"
  let ?sc = "scan_coins env t cm ct ma ?xs [] 0 None"
  show ?thesis
  proof (cases ?sc)
    case (Exact c)
    from scan_coins_Exact[OF Exact] res Exact show ?thesis
      by (auto simp: SelectCoinsMinConf_def set_random_shuffle)
  next
    case (Scanned vV tot low)
    note s = scan_coins_Scanned[OF Scanned]
    have vV: "vV = map mk_CInputCoin (filter (coin_small env t cm ct ma) ?xs)" using s by simp
    have dxs: "distinct (map (\<lambda>cand. outpoint (mk_CInputCoin cand)) ?xs)"
      using distinct_map_mset_cong[OF mset_random_shuffle[symmetric] dist] .
    have dvV: "distinct (map outpoint vV)"
      unfolding vV using distinct_map_filter[OF dxs, of "coin_small env t cm ct ma"]
      by (simp add: comp_def)
    have tot: "tot = sum_list (map coin_value vV)" using s by (simp add: vV comp_def)
    have sub: "set vV \<subseteq> mk_CInputCoin ` set vCoins" unfolding vV by (auto simp: set_random_shuffle)
    have lowp: "low = Some l \<Longrightarrow> l \<in> mk_CInputCoin ` set vCoins \<and> t \<le> coin_value l" for l
      using s mc by (auto simp: set_random_shuffle coin_large_def)
    let ?vs = "sort_descending vV"
    have dvs: "distinct (map outpoint ?vs)"
      using distinct_map_mset_cong[OF mset_sort_descending[symmetric] dvV] .
    have tots: "tot = sum_list (map coin_value ?vs)"
      unfolding tot using sum_list_map_mset_cong[OF mset_sort_descending[symmetric]] .
    have subs: "set ?vs \<subseteq> mk_CInputCoin ` set vCoins"
      using sub mset_sort_descending[of vV] by (metis set_mset_mset)
    show ?thesis
    proof (cases "tot = t")
      case True
      obtain S' v' where ia: "insert_all vV ([], 0) = (S', v')" by (cases "insert_all vV ([], 0)")
      from insert_all_sum[OF dvV _ ia] have "v' = tot" "sum_list (map coin_value S') = tot" "set S' = set vV"
        by (auto simp: tot)
      with res Scanned True ia sub show ?thesis by (auto simp: SelectCoinsMinConf_def)
    next
      case ne: False
      show ?thesis
      proof (cases "tot < t")
        case True
        with res Scanned ne lowp show ?thesis
          by (cases low) (auto simp: SelectCoinsMinConf_def)
      next
        case False
        then have ge: "t \<le> tot" by simp
        obtain fl1 b1 where a1: "ApproximateBestSubset (rand_bits1 env) ?vs tot t 1000 = (fl1, b1)"
          by (cases "ApproximateBestSubset (rand_bits1 env) ?vs tot t 1000")
        note p1 = ApproximateBestSubset_ok[OF tots ge a1]
        obtain fl b where a2: "(if b1 \<noteq> t \<and> tot \<ge> t + MIN_CHANGE env
                     then ApproximateBestSubset (rand_bits2 env) ?vs tot (t + MIN_CHANGE env) 1000
                     else (fl1, b1)) = (fl, b)"
          by (cases "(if b1 \<noteq> t \<and> tot \<ge> t + MIN_CHANGE env
                     then ApproximateBestSubset (rand_bits2 env) ?vs tot (t + MIN_CHANGE env) 1000
                     else (fl1, b1))")
        have p: "length fl = length ?vs \<and> b = flag_sum ?vs fl \<and> t \<le> b"
        proof (cases "b1 \<noteq> t \<and> tot \<ge> t + MIN_CHANGE env")
          case True
          then have "ApproximateBestSubset (rand_bits2 env) ?vs tot (t + MIN_CHANGE env) 1000 = (fl, b)"
            using a2 by simp
          from ApproximateBestSubset_ok[OF tots _ this] True mc show ?thesis by auto
        next
          case False
          then have "fl = fl1" "b = b1" using a2 by auto
          then show ?thesis using p1 by simp
        qed
        obtain S' v' where ib: "insert_best ?vs fl ([], 0) = (S', v')"
          by (cases "insert_best ?vs fl ([], 0)")
        from insert_best_sum[OF dvs _ _ ib] p
        have q: "v' = b" "sum_list (map coin_value S') = b" "set S' \<subseteq> set ?vs" by auto
        from res Scanned ne False a1 a2 ib q p subs lowp show ?thesis
          by (cases low) (auto simp: SelectCoinsMinConf_def Let_def split: if_splits)
      qed
    qed
  qed
qed

lemma upt_0_3: "[0..<Suc (Suc (Suc 0))] = [0, Suc 0, Suc (Suc 0)]"
  by (simp add: upt_rec)

lemma abs_rep3:
  assumes v: "coin_value B = 20" "coin_value A = 10" "coin_value C = 5"
    and s: "state3 s"
  shows "nDraws (abs_rep rb [B, A, C] 15 s) = nDraws s + 3
       \<and> (if \<not> rb (nDraws s) \<or> (rb (nDraws s + 1) \<and> rb (nDraws s + 2))
          then nBest (abs_rep rb [B, A, C] 15 s) = 15
             \<and> vfBest (abs_rep rb [B, A, C] 15 s) = [False, True, True]
          else nBest (abs_rep rb [B, A, C] 15 s) = 20
             \<and> vfBest (abs_rep rb [B, A, C] 15 s) = [True, False, False])"
proof -
  have l: "length [B, A, C] = Suc (Suc (Suc 0))" by simp
  from s consider "nBest s = 35" "vfBest s = [True, True, True]"
    | "nBest s = 20" "vfBest s = [True, False, False]" unfolding state3_def by blast
  then show ?thesis
  proof cases
    case 1
    then show ?thesis
      unfolding abs_rep_def abs_pass_def l upt_0_3
      by (cases "rb (nDraws s)"; cases "rb (Suc (nDraws s))"; cases "rb (Suc (Suc (nDraws s)))")
         (simp_all add: abs_step_def abs_take_def Let_def v)
  next
    case 2
    then show ?thesis
      unfolding abs_rep_def abs_pass_def l upt_0_3
      by (cases "rb (nDraws s)"; cases "rb (Suc (nDraws s))"; cases "rb (Suc (Suc (nDraws s)))")
         (simp_all add: abs_step_def abs_take_def Let_def v)
  qed
qed

lemma abs_reps_done: "nBest s = t \<Longrightarrow> abs_reps rb vs t k s = s"
  by (cases k) simp_all

lemma abs_reps3:
  assumes v: "coin_value B = 20" "coin_value A = 10" "coin_value C = 5"
  shows "state3 s \<Longrightarrow> nDraws s = 3 * j \<Longrightarrow>
     (if \<exists>r. j \<le> r \<and> r < j + k \<and> good_round rb r
      then nBest (abs_reps rb [B, A, C] 15 k s) = 15
         \<and> vfBest (abs_reps rb [B, A, C] 15 k s) = [False, True, True]
      else state3 (abs_reps rb [B, A, C] 15 k s))"
proof (induction k arbitrary: s j)
  case 0
  then show ?case by (auto dest: leD)
next
  case (Suc k)
  let ?s1 = "abs_rep rb [B, A, C] 15 s"
  have ne: "nBest s \<noteq> 15" using Suc.prems(1) by (auto simp: state3_def)
  have step: "abs_reps rb [B, A, C] 15 (Suc k) s = abs_reps rb [B, A, C] 15 k ?s1"
    using ne by simp
  note r = abs_rep3[OF v Suc.prems(1), of rb]
  have g: "good_round rb j \<longleftrightarrow> (\<not> rb (nDraws s) \<or> (rb (nDraws s + 1) \<and> rb (nDraws s + 2)))"
    by (simp add: good_round_def Suc.prems(2))
  show ?case
  proof (cases "good_round rb j")
    case True
    then have "nBest ?s1 = 15" "vfBest ?s1 = [False, True, True]" using r g by auto
    moreover have "\<exists>r. j \<le> r \<and> r < j + Suc k \<and> good_round rb r" using True by auto
    ultimately show ?thesis unfolding step by (simp add: abs_reps_done)
  next
    case False
    then have s1: "state3 ?s1" "nDraws ?s1 = 3 * Suc j"
      using r g Suc.prems(2) by (auto simp: state3_def)
    have "(\<exists>r. j \<le> r \<and> r < j + Suc k \<and> good_round rb r)
            \<longleftrightarrow> (\<exists>r. Suc j \<le> r \<and> r < Suc j + k \<and> good_round rb r)"
      using False by (metis Suc_leD Suc_le_eq add_Suc add_Suc_right le_neq_implies_less)
    then show ?thesis unfolding step using Suc.IH[OF s1] by simp
  qed
qed

lemma ApproximateBestSubset3:
  assumes v: "coin_value B = 20" "coin_value A = 10" "coin_value C = 5"
  shows "(\<exists>r<k. good_round rb r) \<longrightarrow>
           ApproximateBestSubset rb [B, A, C] 35 15 k = ([False, True, True], 15)"
    and "\<not> (\<exists>r<k. good_round rb r) \<longrightarrow>
           snd (ApproximateBestSubset rb [B, A, C] 35 15 k) \<in> {35, 20}"
proof -
  let ?s = "\<lparr>nTotal = 0, vfIncluded = [], fReachedTarget = False, nBest = 35,
                 vfBest = [True, True, True], nDraws = 0\<rparr>"
  let ?r = "abs_reps rb [B, A, C] 15 k ?s"
  have s: "state3 ?s" "nDraws ?s = 3 * 0" by (simp_all add: state3_def)
  have e: "ApproximateBestSubset rb [B, A, C] 35 15 k = (vfBest ?r, nBest ?r)"
    by (simp add: ApproximateBestSubset_def Let_def)
  have x: "(\<exists>r. 0 \<le> r \<and> r < 0 + k \<and> good_round rb r) \<longleftrightarrow> (\<exists>r<k. good_round rb r)" by simp
  note a = abs_reps3[OF v s, of k rb, unfolded x]
  show "(\<exists>r<k. good_round rb r) \<longrightarrow>
           ApproximateBestSubset rb [B, A, C] 35 15 k = ([False, True, True], 15)"
    using a unfolding e by simp
  show "\<not> (\<exists>r<k. good_round rb r) \<longrightarrow>
           snd (ApproximateBestSubset rb [B, A, C] 35 15 k) \<in> {35, 20}"
  proof
    assume n: "\<not> (\<exists>r<k. good_round rb r)"
    then have "state3 ?r" using a by (simp only: if_False)
    then show "snd (ApproximateBestSubset rb [B, A, C] 35 15 k) \<in> {35, 20}"
      unfolding e by (auto simp: state3_def)
  qed
qed

lemma random_shuffle3:
  "random_shuffle rnd [x, y, z]
     \<in> {[x, y, z], [y, x, z], [z, y, x], [x, z, y], [z, x, y], [y, z, x]}"
proof -
  have m1: "rnd (Suc 0) mod Suc (Suc 0) = 0 \<or> rnd (Suc 0) mod Suc (Suc 0) = Suc 0" by arith
  have m2: "rnd (Suc (Suc 0)) mod Suc (Suc (Suc 0)) = 0 \<or> rnd (Suc (Suc 0)) mod Suc (Suc (Suc 0)) = Suc 0
     \<or> rnd (Suc (Suc 0)) mod Suc (Suc (Suc 0)) = Suc (Suc 0)" by arith
  have e: "random_shuffle rnd [x, y, z]
             = swap_at (Suc (Suc 0)) (rnd (Suc (Suc 0)) mod Suc (Suc (Suc 0)))
                 (swap_at (Suc 0) (rnd (Suc 0) mod Suc (Suc 0)) [x, y, z])"
    by (simp add: random_shuffle_def numeral_2_eq_2)
  show ?thesis unfolding e using m1 m2
    by (elim disjE) (simp_all add: swap_at_def)
qed

lemma select_exact_sum_instance:
  assumes mc: "0 \<le> MIN_CHANGE env"
    and el: "coin_eligible env cm ct ma a" "coin_eligible env cm ct ma b"
            "coin_eligible env cm ct ma c"
    and vals: "nValue (tx_out a) = 10" "nValue (tx_out b) = 20" "nValue (tx_out c) = 5"
    and dist: "distinct [outpoint (mk_CInputCoin a), outpoint (mk_CInputCoin b),
                         outpoint (mk_CInputCoin c)]"
  shows "\<exists>cs v. SelectCoinsMinConf env 15 cm ct ma [a, b, c] = (True, cs, v)
            \<and> 15 \<le> v \<and> sum_list (map coin_value cs) = v
            \<and> ((set cs = {mk_CInputCoin a, mk_CInputCoin c} \<and> v = 15)
                 \<longleftrightarrow> (MIN_CHANGE env \<le> 5
                      \<or> (\<exists>r<1000. good_round (rand_bits1 env) r)))"
proof -
  let ?A = "mk_CInputCoin a" and ?B = "mk_CInputCoin b" and ?C = "mk_CInputCoin c"
  let ?ys = "random_shuffle (shuffle_draws env) [a, b, c]"
  let ?sc = "scan_coins env 15 cm ct ma ?ys [] 0 None"
  have d: "distinct (map (\<lambda>cand. outpoint (mk_CInputCoin cand)) [a, b, c])" using dist by simp
  have notexact: "?sc \<noteq> Exact x" for x
  proof
    assume "?sc = Exact x"
    from scan_coins_Exact[OF this] vals show False by (auto simp: set_random_shuffle)
  qed
  then obtain vV tot low where sc: "?sc = Scanned vV tot low" by (cases ?sc) auto
  note s = scan_coins_Scanned[OF sc]
  note sh = scan_shuffled[OF sc]
  show ?thesis
  proof (cases "MIN_CHANGE env \<le> 5")
    case True
    have sm: "coin_small env 15 cm ct ma a" "\<not> coin_small env 15 cm ct ma b"
      "coin_small env 15 cm ct ma c"
      using True mc el vals by (auto simp: coin_small_def)
    have tot: "tot = 15" using sh(1) sm vals by simp
    have setv: "set vV = {?A, ?C}" using sh(2) sm by auto
    have vV: "vV = map mk_CInputCoin (filter (coin_small env 15 cm ct ma) ?ys)" using s by simp
    have dys: "distinct (map (\<lambda>cand. outpoint (mk_CInputCoin cand)) ?ys)"
      using distinct_map_mset_cong[OF mset_random_shuffle[symmetric] d] .
    have dvV: "distinct (map outpoint vV)"
      unfolding vV using distinct_map_filter[OF dys, of "coin_small env 15 cm ct ma"]
      by (simp add: comp_def)
    obtain S' v' where ia: "insert_all vV ([], 0) = (S', v')" by (cases "insert_all vV ([], 0)")
    from insert_all_sum[OF dvV _ ia] have i: "set S' = set vV" "v' = sum_list (map coin_value vV)"
      by auto
    have tv: "tot = sum_list (map coin_value vV)" using s by (simp add: vV comp_def)
    have sel: "SelectCoinsMinConf env 15 cm ct ma [a, b, c] = (True, S', v')"
      using sc tot ia by (simp add: SelectCoinsMinConf_def)
    from SelectCoinsMinConf_post[OF mc d sel] have "15 \<le> v'" "sum_list (map coin_value S') = v'"
      by simp_all
    moreover have "set S' = {?A, ?C}" "v' = 15" using i setv tv tot by simp_all
    ultimately show ?thesis using sel True by simp
  next
    case False
    then have big: "5 < MIN_CHANGE env" by simp
    have sm: "coin_small env 15 cm ct ma a" "coin_small env 15 cm ct ma b"
      "coin_small env 15 cm ct ma c"
      using big el vals by (auto simp: coin_small_def)
    have tot: "tot = 35" using sh(1) sm vals by simp
    have low: "low = None"
    proof (cases low)
      case (Some l)
      from sh(4)[OF Some] sm show ?thesis by (auto simp: coin_large_def coin_small_def)
    qed simp
    have vV: "vV = map mk_CInputCoin ?ys" using s sm
      by (simp add: set_random_shuffle)
    have cv: "coin_value ?B = 20" "coin_value ?A = 10" "coin_value ?C = 5" using vals by simp_all
    have srt: "sort_descending vV = [?B, ?A, ?C]"
      unfolding vV using random_shuffle3[of "shuffle_draws env" a b c]
      apply (elim insertE emptyE)
      apply (simp_all add: sort_descending_def vals)
      done
    obtain fl1 b1 where a1:
      "ApproximateBestSubset (rand_bits1 env) [?B, ?A, ?C] 35 15 1000 = (fl1, b1)"
      by (cases "ApproximateBestSubset (rand_bits1 env) [?B, ?A, ?C] 35 15 1000")
    note ch = ApproximateBestSubset3[OF cv, of 1000 "rand_bits1 env"]
    have dvs: "distinct (map outpoint [?B, ?A, ?C])" using dist by auto
    have tots: "(35::int) = sum_list (map coin_value [?B, ?A, ?C])" using cv by simp
    show ?thesis
    proof (cases "\<exists>r<1000. good_round (rand_bits1 env) r")
      case True
      then have a: "fl1 = [False, True, True]" "b1 = 15" using ch(1) a1 by auto
      have ne: "outpoint ?C \<noteq> outpoint ?A" using dist by auto
      have sel: "SelectCoinsMinConf env 15 cm ct ma [a, b, c]
              = (True, set_insert ?C [?A], 15)"
        using sc tot low srt a1 a cv by (simp add: SelectCoinsMinConf_def)
      have "set (set_insert ?C [?A]) = {?A, ?C}"
        using ne by (auto simp: set_set_insert)
      moreover from SelectCoinsMinConf_post[OF mc d sel]
      have "sum_list (map coin_value (set_insert ?C [?A])) = 15" by simp
      ultimately show ?thesis using sel True by simp
    next
      case nog: False
      then have b1: "b1 \<in> {35, 20}" using ch(2) a1 by auto
      obtain fl nb where a2: "(if b1 \<noteq> 15 \<and> (35::int) \<ge> 15 + MIN_CHANGE env
                     then ApproximateBestSubset (rand_bits2 env) [?B, ?A, ?C] 35
                            (15 + MIN_CHANGE env) 1000
                     else (fl1, b1)) = (fl, nb)"
        by (cases "(if b1 \<noteq> 15 \<and> (35::int) \<ge> 15 + MIN_CHANGE env
                     then ApproximateBestSubset (rand_bits2 env) [?B, ?A, ?C] 35
                            (15 + MIN_CHANGE env) 1000
                     else (fl1, b1))")
      have p: "length fl = length [?B, ?A, ?C] \<and> nb = flag_sum [?B, ?A, ?C] fl \<and> 20 \<le> nb"
      proof (cases "b1 \<noteq> 15 \<and> (35::int) \<ge> 15 + MIN_CHANGE env")
        case True
        then have "ApproximateBestSubset (rand_bits2 env) [?B, ?A, ?C] 35 (15 + MIN_CHANGE env) 1000 = (fl, nb)"
          using a2 by simp
        from ApproximateBestSubset_ok[OF tots _ this] True big show ?thesis by auto
      next
        case False
        then have "fl = fl1" "nb = b1" using a2 by auto
        then show ?thesis using ApproximateBestSubset_ok[OF tots _ a1] b1 by auto
      qed
      obtain S' v' where ib: "insert_best [?B, ?A, ?C] fl ([], 0) = (S', v')"
        by (cases "insert_best [?B, ?A, ?C] fl ([], 0)")
      from insert_best_sum[OF dvs _ _ ib] p have q: "v' = nb" by auto
      have sel: "SelectCoinsMinConf env 15 cm ct ma [a, b, c] = (True, S', v')"
        using sc tot low srt a1 a2 ib by (simp add: SelectCoinsMinConf_def)
      from SelectCoinsMinConf_post[OF mc d sel] have "15 \<le> v'" "sum_list (map coin_value S') = v'"
        by simp_all
      moreover have "v' \<noteq> 15" using q p by simp
      ultimately show ?thesis using sel nog big by simp
    qed
  qed
qed

lemma abs_reps3_bad:
  assumes v: "coin_value B = 20" "coin_value A = 10" "coin_value C = 5"
  shows "state3 s \<Longrightarrow> nDraws s = 3 * j \<Longrightarrow> 0 < k \<Longrightarrow>
     \<forall>r. j \<le> r \<and> r < j + k \<longrightarrow> \<not> good_round rb r \<Longrightarrow>
     nBest (abs_reps rb [B, A, C] 15 k s) = 20
       \<and> vfBest (abs_reps rb [B, A, C] 15 k s) = [True, False, False]"
proof (induction k arbitrary: s j)
  case 0
  then show ?case by simp
next
  case (Suc k)
  let ?s1 = "abs_rep rb [B, A, C] 15 s"
  have ne: "nBest s \<noteq> 15" using Suc.prems(1) by (auto simp: state3_def)
  have step: "abs_reps rb [B, A, C] 15 (Suc k) s = abs_reps rb [B, A, C] 15 k ?s1"
    using ne by simp
  note r = abs_rep3[OF v Suc.prems(1), of rb]
  have g: "good_round rb j \<longleftrightarrow> (\<not> rb (nDraws s) \<or> (rb (nDraws s + 1) \<and> rb (nDraws s + 2)))"
    by (simp add: good_round_def Suc.prems(2))
  have "\<not> good_round rb j" using Suc.prems(4) by simp
  then have s1: "nBest ?s1 = 20" "vfBest ?s1 = [True, False, False]" "nDraws ?s1 = 3 * Suc j"
    using r g Suc.prems(2) by auto
  then have st: "state3 ?s1" by (simp add: state3_def)
  show ?case
  proof (cases k)
    case 0
    then show ?thesis unfolding step using s1 by simp
  next
    case (Suc k')
    then have "0 < k" by simp
    moreover have "\<forall>r. Suc j \<le> r \<and> r < Suc j + k \<longrightarrow> \<not> good_round rb r"
      using Suc.prems(4) by simp
    ultimately show ?thesis unfolding step using Suc.IH[OF st s1(3)] by simp
  qed
qed

lemma ApproximateBestSubset3_bad:
  assumes v: "coin_value B = 20" "coin_value A = 10" "coin_value C = 5"
    and "\<forall>r<k. \<not> good_round rb r" "0 < k"
  shows "ApproximateBestSubset rb [B, A, C] 35 15 k = ([True, False, False], 20)"
proof -
  let ?s = "\<lparr>nTotal = 0, vfIncluded = [], fReachedTarget = False, nBest = 35,
                 vfBest = [True, True, True], nDraws = 0\<rparr>"
  let ?r = "abs_reps rb [B, A, C] 15 k ?s"
  have s: "state3 ?s" "nDraws ?s = 3 * 0" by (simp_all add: state3_def)
  have e: "ApproximateBestSubset rb [B, A, C] 35 15 k = (vfBest ?r, nBest ?r)"
    by (simp add: ApproximateBestSubset_def Let_def)
  have "\<forall>r. 0 \<le> r \<and> r < 0 + k \<longrightarrow> \<not> good_round rb r" using assms(4) by simp
  from abs_reps3_bad[OF v s assms(5) this] show ?thesis unfolding e by simp
qed

lemma select_single_coin_100:
  assumes mc: "0 \<le> MIN_CHANGE env"
    and el: "coin_eligible env cm ct ma c100"
    and val: "nValue (tx_out c100) = 100"
  shows "SelectCoinsMinConf env 10 cm ct ma [c100] = (True, [mk_CInputCoin c100], 100)"
proof -
  let ?X = "mk_CInputCoin c100"
  have sh: "random_shuffle (shuffle_draws env) [c100] = [c100]" by (simp add: random_shuffle_def)
  show ?thesis
  proof (cases "100 < 10 + MIN_CHANGE env")
    case False
    then show ?thesis using el val by (simp add: SelectCoinsMinConf_def sh Let_def)
  next
    case True
    have sc: "scan_coins env 10 cm ct ma [c100] [] 0 None = Scanned [?X] 100 None"
      using True el val by (simp add: Let_def)
    have srt: "sort_descending [?X] = [?X]" by (simp add: sort_descending_def)
    have tots: "(100::int) = sum_list (map coin_value [?X])" using val by simp
    have only: "fl = [True]" if "length fl = length [?X] \<and> nb = flag_sum [?X] fl \<and> 10 \<le> nb"
      for fl nb
    proof -
      from that obtain f where f: "fl = [f]" by (cases fl) auto
      with that show ?thesis by (cases f) (auto simp: flag_sum_def)
    qed
    obtain fl1 b1 where a1: "ApproximateBestSubset (rand_bits1 env) [?X] 100 10 1000 = (fl1, b1)"
      by (cases "ApproximateBestSubset (rand_bits1 env) [?X] 100 10 1000")
    have f1: "fl1 = [True]" using only[OF ApproximateBestSubset_ok[OF tots _ a1]] by simp
    obtain fl nb where a2: "(if b1 \<noteq> 10 \<and> (100::int) \<ge> 10 + MIN_CHANGE env
                     then ApproximateBestSubset (rand_bits2 env) [?X] 100 (10 + MIN_CHANGE env) 1000
                     else (fl1, b1)) = (fl, nb)"
      by (cases "(if b1 \<noteq> 10 \<and> (100::int) \<ge> 10 + MIN_CHANGE env
                     then ApproximateBestSubset (rand_bits2 env) [?X] 100 (10 + MIN_CHANGE env) 1000
                     else (fl1, b1))")
    have f: "fl = [True]"
    proof (cases "b1 \<noteq> 10 \<and> (100::int) \<ge> 10 + MIN_CHANGE env")
      case True
      then have "ApproximateBestSubset (rand_bits2 env) [?X] 100 (10 + MIN_CHANGE env) 1000 = (fl, nb)"
        using a2 by simp
      from ApproximateBestSubset_ok[OF tots _ this] True mc
      have "length fl = length [?X] \<and> nb = flag_sum [?X] fl \<and> 10 \<le> nb" by auto
      then show ?thesis by (rule only)
    next
      case False
      then show ?thesis using a2 f1 by auto
    qed
    show ?thesis
      using sc srt a1 a2 f val by (simp add: SelectCoinsMinConf_def sh)
  qed
qed

lemma select_coins_1_2:
  assumes mc: "0 \<le> MIN_CHANGE env"
    and vals: "nValue (tx_out c1) = 1" "nValue (tx_out c2) = 2"
  shows "SelectCoinsMinConf env 10 cm ct ma [c1, c2] = (False, [], 0)"
proof -
  have "\<forall>cand\<in>set [c1, c2]. 0 \<le> nValue (tx_out cand)" using vals by simp
  moreover have "\<forall>cand\<in>set (filtered_candidates env cm ct ma [c1, c2]). nValue (tx_out cand) \<noteq> 10"
    using vals by (auto simp: filtered_candidates_def)
  moreover have "sum_list (map (\<lambda>cand. nValue (tx_out cand))
                  (filter (\<lambda>cand. nValue (tx_out cand) < 10 + MIN_CHANGE env)
                     (filtered_candidates env cm ct ma [c1, c2]))) < 10"
    using vals by (auto simp: filtered_candidates_def)
  moreover have "\<not> (\<exists>cand\<in>set (filtered_candidates env cm ct ma [c1, c2]). 10 < nValue (tx_out cand))"
    using vals by (auto simp: filtered_candidates_def)
  ultimately show ?thesis using select_rule5[OF mc, of "[c1, c2]" cm ct ma 10] by simp
qed

section \<open>Facts about the ledger operations\<close>

lemma set_insert_spenders:
  "set (insert_spenders es r0) = set r0 \<union> snd ` set es"
  unfolding insert_spenders_def
  by (induction es arbitrary: r0) (auto simp: set_insort_insert)

lemma set_conflicts_of_input:
  "set (conflicts_of_input spends txin r0)
     = set r0 \<union> {s. 1 < multimap_count spends (prevout txin) \<and> (prevout txin, s) \<in> set spends}"
proof -
  have er: "snd ` set (equal_range spends (prevout txin)) = {s. (prevout txin, s) \<in> set spends}"
    by (force simp: equal_range_def)
  show ?thesis by (auto simp: conflicts_of_input_def set_insert_spenders er)
qed

lemma set_GetConflicts_fold:
  "set (fold (conflicts_of_input spends) ins r0)
   = set r0 \<union> {s. \<exists>txin\<in>set ins. 1 < multimap_count spends (prevout txin)
                      \<and> (prevout txin, s) \<in> set spends}"
  by (induction ins arbitrary: r0) (auto simp: set_conflicts_of_input)

lemma GetConflicts_conflict_wallet: "GetConflicts conflict_wallet 11 = [11, 12]"
  by (simp add: GetConflicts_def conflict_wallet_def map_find_def example_wtx_def spend_of_def
        conflicts_of_input_def insert_spenders_def multimap_count_def equal_range_def
        insort_insert_key_def)

lemma map_find_assign:
  "map_find (assign h v m) k = (if k = h \<and> has_key m h then Some v else map_find m k)"
  by (induction m) (auto simp: map_find_def has_key_def)

lemma map_find_modify:
  "map_find (modify h f m) k = (if k = h then map_option f (map_find m h) else map_find m k)"
  by (induction m) (auto simp: map_find_def)

lemma keys_assign [simp]: "map fst (assign h v m) = map fst m"
  by (induction m) auto

lemma keys_modify [simp]: "map fst (modify h f m) = map fst m"
  by (induction m) auto

lemma has_key_assign [simp]: "has_key (assign h v m) k = has_key m k"
  by (auto simp: has_key_def map_find_assign)

lemma has_key_iff: "has_key m k \<longleftrightarrow> k \<in> fst ` set m"
  by (simp add: has_key_def map_find_def map_of_eq_None_iff)

lemma keys_map_insert: "fst ` set (map_insert h v m) = insert h (fst ` set m)"
  by (induction h v m rule: map_insert.induct) auto

lemma has_key_map_insert: "has_key (map_insert h v m) k = (k = h \<or> has_key m k)"
  by (simp add: has_key_iff keys_map_insert)

lemma has_key_map_subscript:
  "has_key m k \<Longrightarrow> has_key (snd (map_subscript dflt h m)) k"
  by (auto simp: map_subscript_def has_key_map_insert split: option.splits)

lemma has_key_sync_oldest_step:
  "has_key (snd (snd st)) k \<Longrightarrow> has_key (snd (snd (sync_oldest_step dflt h st))) k"
  using has_key_map_subscript[of "snd (snd st)" k dflt h]
  by (auto simp: sync_oldest_step_def split: prod.splits)

lemma has_key_sync_find_oldest:
  "has_key (snd (snd st)) k \<Longrightarrow> has_key (snd (snd (sync_find_oldest dflt ids st))) k"
  unfolding sync_find_oldest_def
  by (induction ids arbitrary: st) (auto simp: has_key_sync_oldest_step)

lemma has_key_sync_copy_step:
  "has_key m k \<Longrightarrow> has_key (sync_copy_step dflt fromKey h m) k"
  using has_key_map_subscript[of m k dflt h]
  by (auto simp: sync_copy_step_def split: prod.splits option.splits)

lemma has_key_sync_copy:
  "has_key m k \<Longrightarrow> has_key (sync_copy dflt fromKey ids m) k"
  unfolding sync_copy_def
  by (induction ids arbitrary: m) (auto simp: has_key_sync_copy_step)

lemma has_key_SyncMetaData:
  "has_key m k \<Longrightarrow> SyncMetaData dflt rng m = Inr m' \<Longrightarrow> has_key m' k"
  using has_key_sync_find_oldest[of "(INT_MAX, None, m)" k dflt "map snd rng"]
  by (auto simp: SyncMetaData_def has_key_sync_copy split: prod.splits option.splits)

lemma has_key_AddToSpends_inputs:
  "has_key (mapWallet w) k \<Longrightarrow> AddToSpends_inputs dflt ins wtxid w = Inr w' \<Longrightarrow>
     has_key (mapWallet w') k"
proof (induction ins arbitrary: w)
  case Nil
  then show ?case by simp
next
  case (Cons a ins)
  from Cons.prems(2) obtain w1 where
    1: "AddToSpends_outpoint dflt (prevout a) wtxid w = Inr w1"
    and 2: "AddToSpends_inputs dflt ins wtxid w1 = Inr w'"
    by (auto split: sum.splits)
  have "has_key (mapWallet w1) k"
    using 1 Cons.prems(1)
    by (auto simp: AddToSpends_outpoint_def Let_def split: sum.splits dest: has_key_SyncMetaData)
  from Cons.IH[OF this 2] show ?case .
qed

lemma has_key_AddToSpends:
  "has_key (mapWallet w) k \<Longrightarrow> AddToSpends dflt wtxid w = Inr w' \<Longrightarrow> has_key (mapWallet w') k"
  by (auto simp: AddToSpends_def split: option.splits if_splits dest: has_key_AddToSpends_inputs)

lemma is_dirty_MarkDirty [simp]: "is_dirty (MarkDirty wtx)"
  by (simp add: is_dirty_def MarkDirty_def cached_amounts_def)

lemma MarkDirty_dirty: "is_dirty wtx \<Longrightarrow> cached_amounts (MarkDirty wtx) = cached_amounts wtx"
  by (auto simp: is_dirty_def MarkDirty_def cached_amounts_def prod_eq_iff)

lemma nOrderPos_MarkDirty [simp]: "nOrderPos (MarkDirty wtx) = nOrderPos wtx"
  by (simp add: MarkDirty_def)

lemma BindWallet_dirty:
  "is_dirty wtx \<Longrightarrow> cached_amounts (BindWallet env wtx) = cached_amounts wtx
     \<and> is_dirty (BindWallet env wtx) \<and> nOrderPos (BindWallet env wtx) = nOrderPos wtx"
  by (auto simp: BindWallet_def MarkDirty_dirty)

lemma merge_steps_keep:
  "same_cache_and_order (fst (merge_hashBlock wtxIn st)) (fst st)"
  "same_cache_and_order (fst (merge_unabandon wtxIn st)) (fst st)"
  "same_cache_and_order (fst (merge_nIndex wtxIn st)) (fst st)"
  "same_cache_and_order (fst (merge_fFromMe wtxIn st)) (fst st)"
  "same_cache_and_order (fst (merge_witness wtxIn st)) (fst st)"
  by (simp_all add: same_cache_and_order_def cached_amounts_def merge_hashBlock_def
        merge_unabandon_def merge_nIndex_def merge_fFromMe_def merge_witness_def
        split: prod.splits)

lemma same_cache_and_order_trans:
  "same_cache_and_order a b \<Longrightarrow> same_cache_and_order b c \<Longrightarrow> same_cache_and_order a c"
  by (simp add: same_cache_and_order_def)

lemma merge_into_keeps:
  assumes "merge_into wtxIn wtx = (wtx', u)"
  shows "cached_amounts wtx' = cached_amounts wtx \<and> nOrderPos wtx' = nOrderPos wtx"
proof -
  let ?s1 = "merge_hashBlock wtxIn (wtx, False)"
  let ?s2 = "merge_unabandon wtxIn ?s1"
  let ?s3 = "merge_nIndex wtxIn ?s2"
  let ?s4 = "merge_fFromMe wtxIn ?s3"
  note t = same_cache_and_order_trans
  have "same_cache_and_order (fst (merge_witness wtxIn ?s4)) (fst (wtx, False))"
    by (rule t[OF merge_steps_keep(5) t[OF merge_steps_keep(4) t[OF merge_steps_keep(3)
          t[OF merge_steps_keep(2) merge_steps_keep(1)]]]])
  then show ?thesis using assms by (simp add: same_cache_and_order_def merge_into_def)
qed

lemma AddToWallet_success_leaves_dirty:
  assumes "AddToWallet env cv w wtxIn = Inr (True, w1)"
  shows "\<exists>r. map_find (mapWallet w1) (txhash (tx wtxIn)) = Some r \<and> is_dirty r"
proof (cases "map_find (mapWallet w) (txhash (tx wtxIn))")
  case (Some found)
  then have hk: "has_key (mapWallet w) (txhash (tx wtxIn))" by (simp add: has_key_def)
  obtain wtx u where m: "merge_into wtxIn (BindWallet env found) = (wtx, u)"
    by (cases "merge_into wtxIn (BindWallet env found)")
  from assms Some m have "w1 = w\<lparr>mapWallet := assign (txhash (tx wtxIn)) (MarkDirty wtx) (mapWallet w)\<rparr>"
    by (auto simp: AddToWallet_def Let_def split: if_splits)
  then show ?thesis using hk by (simp add: map_find_assign)
next
  case None
  let ?h = "txhash (tx wtxIn)"
  let ?wtx0 = "(BindWallet env wtxIn)\<lparr>nTimeReceived := GetAdjustedTime env, nOrderPos := nOrderPosNext w\<rparr>"
  let ?w1 = "w\<lparr>mapWallet := map_insert ?h ?wtx0 (mapWallet w),
                         nOrderPosNext := nOrderPosNext w + 1,
                         wtxOrdered := ordered_insert (nOrderPos ?wtx0, Inl ?h) (wtxOrdered w)\<rparr>"
  let ?w2 = "?w1\<lparr>mapWallet := assign ?h (?wtx0\<lparr>nTimeSmart := ComputeTimeSmart cv ?w1 ?wtx0\<rparr>) (mapWallet ?w1)\<rparr>"
  from assms None obtain w3 where a: "AddToSpends (default_CWalletTx env) ?h ?w2 = Inr w3"
    and w1: "w1 = w3\<lparr>mapWallet := modify ?h MarkDirty (mapWallet w3)\<rparr>"
    by (auto simp: AddToWallet_def Let_def split: sum.splits if_splits)
  have "has_key (mapWallet ?w2) ?h" by (simp add: has_key_map_insert)
  from has_key_AddToSpends[OF this a] obtain r where "map_find (mapWallet w3) ?h = Some r"
    by (auto simp: has_key_def)
  then show ?thesis using w1 by (simp add: map_find_modify)
qed

lemma assign_same_view:
  "map_find m h = Some found \<Longrightarrow> f X = f found \<Longrightarrow>
     map_option f (map_find (assign h X m) k) = map_option f (map_find m k)"
  by (simp add: map_find_assign has_key_def)

lemma AddToWallet_again:
  assumes first: "AddToWallet env cv w wtxIn = Inr (True, w1)"
  shows "\<exists>r w2. AddToWallet env' cv' w1 wtxIn = Inr (r, w2)
           \<and> mapTxSpends w2 = mapTxSpends w1
           \<and> wtxOrdered w2 = wtxOrdered w1
           \<and> nOrderPosNext w2 = nOrderPosNext w1
           \<and> map fst (mapWallet w2) = map fst (mapWallet w1)
           \<and> (\<forall>k. map_option nOrderPos (map_find (mapWallet w2) k)
                    = map_option nOrderPos (map_find (mapWallet w1) k))
           \<and> (\<forall>k. map_option cached_amounts (map_find (mapWallet w2) k)
                    = map_option cached_amounts (map_find (mapWallet w1) k))"
proof -
  let ?h = "txhash (tx wtxIn)"
  from AddToWallet_success_leaves_dirty[OF first] obtain found where
    f: "map_find (mapWallet w1) ?h = Some found" and d: "is_dirty found" by blast
  obtain wtx u where m: "merge_into wtxIn (BindWallet env' found) = (wtx, u)"
    by (cases "merge_into wtxIn (BindWallet env' found)")
  note b = BindWallet_dirty[OF d, of env']
  note k = merge_into_keeps[OF m]
  have c: "cached_amounts wtx = cached_amounts found" "nOrderPos wtx = nOrderPos found"
    using b k by simp_all
  have dw: "is_dirty wtx" using d c(1) by (simp add: is_dirty_def)
  have c2: "cached_amounts (MarkDirty wtx) = cached_amounts found"
    "nOrderPos (MarkDirty wtx) = nOrderPos found"
    using MarkDirty_dirty[OF dw] c by simp_all
  define X where "X = (if u \<and> \<not> WriteTx_ok env' then wtx else MarkDirty wtx)"
  define w2 where "w2 = w1\<lparr>mapWallet := assign ?h X (mapWallet w1)\<rparr>"
  have cx: "cached_amounts X = cached_amounts found" "nOrderPos X = nOrderPos found"
    using c c2 by (simp_all add: X_def)
  have r: "AddToWallet env' cv' w1 wtxIn = Inr (\<not> (u \<and> \<not> WriteTx_ok env'), w2)"
    using f m by (simp add: AddToWallet_def Let_def w2_def X_def)
  have 1: "mapTxSpends w2 = mapTxSpends w1" "wtxOrdered w2 = wtxOrdered w1"
    "nOrderPosNext w2 = nOrderPosNext w1" "map fst (mapWallet w2) = map fst (mapWallet w1)"
    by (simp_all add: w2_def)
  have 2: "map_option nOrderPos (map_find (mapWallet w2) k)
             = map_option nOrderPos (map_find (mapWallet w1) k)" for k
    unfolding w2_def using assign_same_view[OF f cx(2), of k] by simp
  have 3: "map_option cached_amounts (map_find (mapWallet w2) k)
             = map_option cached_amounts (map_find (mapWallet w1) k)" for k
    unfolding w2_def using assign_same_view[OF f cx(1), of k] by simp
  show ?thesis using r 1 2 3 by blast
qed

lemma AddToWallet_first_31:
  "AddToWallet example_add_env example_chain empty_wallet (example_wtx 31 [spend_of 9 0] [pay 5])
     = Inr (True, wallet_with_31)"
  by (simp add: AddToWallet_def example_add_env_def empty_wallet_def wallet_with_31_def
        example_wtx_def map_find_def BindWallet_def Let_def ComputeTimeSmart_def hashUnset_def
        AddToSpends_def AddToSpends_outpoint_def SyncMetaData_def sync_find_oldest_def
        sync_oldest_step_def sync_copy_def sync_copy_step_def map_subscript_def equal_range_def
        INT_MAX_def MarkDirty_def spend_of_def)

lemma dropWhile_sorted_filter:
  "sorted_wrt R xs \<Longrightarrow> (\<forall>a\<in>set xs. \<forall>b\<in>set xs. R a b \<longrightarrow> P b \<longrightarrow> P a) \<Longrightarrow>
     dropWhile P xs = filter (\<lambda>x. \<not> P x) xs"
proof (induction xs)
  case Nil
  then show ?case by simp
next
  case (Cons x xs)
  show ?case
  proof (cases "P x")
    case True
    then show ?thesis using Cons by auto
  next
    case False
    have "\<forall>y\<in>set xs. \<not> P y" using Cons.prems False by auto
    then have "filter (\<lambda>x. \<not> P x) xs = xs" by (simp add: filter_id_conv)
    then show ?thesis using False by simp
  qed
qed

lemma takeWhile_sorted_filter:
  "sorted_wrt R xs \<Longrightarrow> (\<forall>a\<in>set xs. \<forall>b\<in>set xs. R a b \<longrightarrow> Q b \<longrightarrow> Q a) \<Longrightarrow>
     takeWhile Q xs = filter Q xs"
proof (induction xs)
  case Nil
  then show ?case by simp
next
  case (Cons x xs)
  show ?case
  proof (cases "Q x")
    case True
    then show ?thesis using Cons by auto
  next
    case False
    have "\<forall>y\<in>set xs. \<not> Q y" using Cons.prems False by auto
    then have "filter Q xs = []" by (simp add: filter_empty_conv)
    then show ?thesis using False by simp
  qed
qed

lemma set_spends_from:
  assumes "multimap_sorted m"
  shows "set (spends_from m now now) = {e \<in> set m. hash (fst e) = now}"
proof -
  let ?R = "\<lambda>a b. \<not> outpoint_less (fst b) (fst a)"
  let ?P = "\<lambda>e. outpoint_less (fst e) \<lparr>hash = now, n_out = 0\<rparr>"
  let ?Q = "\<lambda>e. hash (fst e) = now"
  have s: "sorted_wrt ?R m" using assms by (simp add: multimap_sorted_def)
  have P: "?P e \<longleftrightarrow> hash (fst e) < now" for e :: "COutPoint \<times> uint256"
    by (simp add: outpoint_less_def)
  have d: "dropWhile ?P m = filter (\<lambda>x. \<not> ?P x) m"
    by (rule dropWhile_sorted_filter[OF s]) (auto simp: outpoint_less_def)
  have s2: "sorted_wrt ?R (filter (\<lambda>x. \<not> ?P x) m)" using s by (rule sorted_wrt_filter)
  have t: "takeWhile ?Q (filter (\<lambda>x. \<not> ?P x) m) = filter ?Q (filter (\<lambda>x. \<not> ?P x) m)"
    by (rule takeWhile_sorted_filter[OF s2]) (auto simp: outpoint_less_def)
  show ?thesis unfolding spends_from_def d t by (auto simp: P)
qed


declare MarkConflicted_loop.simps [simp del]

lemma core_MarkDirty [simp]: "core (MarkDirty r) = core r"
  by (simp add: core_def MarkDirty_def)

lemma depth_core:
  assumes "core r = core r'"
  shows "GetDepthInMainChain cv r = GetDepthInMainChain cv r'"
proof -
  have e: "tx r = tx r'" "hashBlock r = hashBlock r'" "nIndex r = nIndex r'"
    using assms by (simp_all add: core_def)
  show ?thesis unfolding GetDepthInMainChain_def hashUnset_def e by (rule refl)
qed

lemma cview_assign:
  "cview (assign h v m) k = (if k = h \<and> has_key m h then Some (core v) else cview m k)"
  by (simp add: cview_def map_find_assign)

lemma has_key_cview: "has_key m k \<longleftrightarrow> cview m k \<noteq> None"
  by (simp add: has_key_def cview_def)

lemma cview_mark_input_dirty: "cview (mark_input_dirty txin m) k = cview m k"
  by (auto simp: mark_input_dirty_def cview_assign split: option.splits)
     (auto simp: cview_def)

lemma cview_mark_inputs_dirty: "cview (mark_inputs_dirty ins m) k = cview m k"
  unfolding mark_inputs_dirty_def
  by (induction ins arbitrary: m) (auto simp: cview_mark_input_dirty)

lemma MarkConflicted_loop_Nil:
  "MarkConflicted_loop cv hb cc spends [] dn mw = Inr mw"
  by (simp add: MarkConflicted_loop.simps)

lemma MarkConflicted_loop_Cons:
  "MarkConflicted_loop cv hb cc spends (now # rest) dn mw =
     (case map_find mw now of
        None \<Rightarrow> Inl AssertionFailed
      | Some wtx \<Rightarrow>
          if cc < GetDepthInMainChain cv wtx
          then MarkConflicted_loop cv hb cc spends
                 (enqueue_spenders (spends_from spends now now) (insort_insert now dn)
                    (removeAll now (now # rest)))
                 (insort_insert now dn)
                 (mark_inputs_dirty (vin (tx (MarkDirty (wtx\<lparr>nIndex := -1, hashBlock := hb\<rparr>))))
                    (assign now (MarkDirty (wtx\<lparr>nIndex := -1, hashBlock := hb\<rparr>)) mw))
          else MarkConflicted_loop cv hb cc spends (removeAll now (now # rest))
                 (insort_insert now dn) mw)"
  by (subst MarkConflicted_loop.simps) (auto simp: Let_def split: option.splits)

lemma mc_inv_now:
  assumes inv: "mc_inv cv hb cc spends mw0 root (now # rest) dn mw"
    and f: "map_find mw now = Some wtx"
  shows "now \<notin> set dn"
    and "\<exists>r0. map_find mw0 now = Some r0 \<and> core wtx = core r0"
proof -
  show n: "now \<notin> set dn" using inv by (auto simp: mc_inv_def)
  have "cview mw now = cview mw0 now" using inv n by (simp add: mc_inv_def)
  then show "\<exists>r0. map_find mw0 now = Some r0 \<and> core wtx = core r0"
    using f by (cases "map_find mw0 now") (auto simp: cview_def)
qed

lemma mc_inv_skip:
  assumes inv: "mc_inv cv hb cc spends mw0 root (now # rest) dn mw"
    and f: "map_find mw now = Some wtx"
    and ge: "\<not> cc < GetDepthInMainChain cv wtx"
  shows "mc_inv cv hb cc spends mw0 root (removeAll now (now # rest)) (insort_insert now dn) mw"
proof -
  note n = mc_inv_now[OF inv f]
  from n(2) obtain r0 where r0: "map_find mw0 now = Some r0" "core wtx = core r0" by blast
  have d0: "\<not> cc < GetDepthInMainChain cv r0" using ge depth_core[OF r0(2), of cv] by simp
  have 1: "\<forall>k. k \<notin> set (insort_insert now dn) \<longrightarrow> cview mw k = cview mw0 k"
    using inv by (simp add: mc_inv_def set_insort_insert)
  have 2: "\<forall>k. has_key mw k = has_key mw0 k" using inv by (simp add: mc_inv_def)
  have 3: "\<forall>k\<in>set (insort_insert now dn). \<forall>r. map_find mw0 k = Some r \<longrightarrow>
             cc < GetDepthInMainChain cv r \<longrightarrow>
            (\<exists>t. cview mw k = Some (t, hb, -1))
            \<and> (\<forall>e\<in>set spends. hash (fst e) = k \<longrightarrow>
                  snd e \<in> set (removeAll now (now # rest)) \<union> set (insort_insert now dn))"
  proof (intro ballI allI impI)
    fix k r assume k: "k \<in> set (insort_insert now dn)" and r: "map_find mw0 k = Some r"
      and lt: "cc < GetDepthInMainChain cv r"
    have "k \<noteq> now" using r r0 d0 lt by auto
    then have kd: "k \<in> set dn" using k by (simp add: set_insort_insert)
    with inv r lt have a: "\<exists>t. cview mw k = Some (t, hb, -1)"
      and b: "\<forall>e\<in>set spends. hash (fst e) = k \<longrightarrow> snd e \<in> set (now # rest) \<union> set dn"
      unfolding mc_inv_def by blast+
    show "(\<exists>t. cview mw k = Some (t, hb, -1))
            \<and> (\<forall>e\<in>set spends. hash (fst e) = k \<longrightarrow>
                  snd e \<in> set (removeAll now (now # rest)) \<union> set (insort_insert now dn))"
      using a b by (auto simp: set_insort_insert)
  qed
  have 4: "set (removeAll now (now # rest)) \<inter> set (insort_insert now dn) = {}"
    using inv by (auto simp: mc_inv_def set_insort_insert)
  have 5: "\<forall>k\<in>set (removeAll now (now # rest)). has_key mw0 k"
    using inv by (auto simp: mc_inv_def)
  have 6: "root \<in> set (removeAll now (now # rest)) \<union> set (insort_insert now dn)"
    using inv by (auto simp: mc_inv_def set_insort_insert)
  show ?thesis unfolding mc_inv_def using 1 2 3 4 5 6 by blast
qed

lemma mc_inv_mark:
  assumes inv: "mc_inv cv hb cc spends mw0 root (now # rest) dn mw"
    and srt: "multimap_sorted spends"
    and tr: "\<forall>e\<in>set spends. has_key mw0 (snd e)"
    and f: "map_find mw now = Some wtx"
    and W: "W = MarkDirty (wtx\<lparr>nIndex := -1, hashBlock := hb\<rparr>)"
  shows "mc_inv cv hb cc spends mw0 root
           (enqueue_spenders (spends_from spends now now) (insort_insert now dn)
              (removeAll now (now # rest)))
           (insort_insert now dn)
           (mark_inputs_dirty (vin (tx W)) (assign now W mw))"
proof -
  let ?todo2 = "enqueue_spenders (spends_from spends now now) (insort_insert now dn)
              (removeAll now (now # rest))"
  let ?done1 = "insort_insert now dn"
  let ?mw2 = "mark_inputs_dirty (vin (tx W)) (assign now W mw)"
  note n = mc_inv_now[OF inv f]
  have hk: "has_key mw now" using f by (simp add: has_key_def)
  have cv2: "cview ?mw2 k = (if k = now then Some (core W) else cview mw k)" for k
    using hk by (simp add: cview_mark_inputs_dirty cview_assign)
  have cW: "core W = (tx wtx, hb, -1)" by (simp add: W core_def MarkDirty_def)
  have t2: "set ?todo2 = set (removeAll now (now # rest))
                \<union> (snd ` {e \<in> set spends. hash (fst e) = now} - set ?done1)"
    by (simp add: set_enqueue_spenders set_spends_from[OF srt])
  have 1: "\<forall>k. k \<notin> set ?done1 \<longrightarrow> cview ?mw2 k = cview mw0 k"
    using inv by (simp add: mc_inv_def set_insort_insert cv2)
  have 2: "\<forall>k. has_key ?mw2 k = has_key mw0 k"
  proof
    fix k
    have "has_key ?mw2 k = has_key mw k"
      using hk[unfolded has_key_cview] by (cases "k = now") (simp_all add: has_key_cview cv2)
    then show "has_key ?mw2 k = has_key mw0 k" using inv by (simp add: mc_inv_def)
  qed
  have 3: "\<forall>k\<in>set ?done1. \<forall>r. map_find mw0 k = Some r \<longrightarrow>
             cc < GetDepthInMainChain cv r \<longrightarrow>
            (\<exists>t. cview ?mw2 k = Some (t, hb, -1))
            \<and> (\<forall>e\<in>set spends. hash (fst e) = k \<longrightarrow> snd e \<in> set ?todo2 \<union> set ?done1)"
  proof (intro ballI allI impI)
    fix k r assume k: "k \<in> set ?done1" and r: "map_find mw0 k = Some r"
      and lt: "cc < GetDepthInMainChain cv r"
    show "(\<exists>t. cview ?mw2 k = Some (t, hb, -1))
            \<and> (\<forall>e\<in>set spends. hash (fst e) = k \<longrightarrow> snd e \<in> set ?todo2 \<union> set ?done1)"
    proof (cases "k = now")
      case True
      then show ?thesis unfolding t2 by (auto simp: cv2 cW)
    next
      case False
      then have kd: "k \<in> set dn" using k by (simp add: set_insort_insert)
      with inv r lt have a: "\<exists>t. cview mw k = Some (t, hb, -1)"
        and b: "\<forall>e\<in>set spends. hash (fst e) = k \<longrightarrow> snd e \<in> set (now # rest) \<union> set dn"
        unfolding mc_inv_def by blast+
      show ?thesis using a b False unfolding t2 by (auto simp: cv2 set_insort_insert)
    qed
  qed
  have 4: "set ?todo2 \<inter> set ?done1 = {}"
    using inv unfolding t2 by (auto simp: mc_inv_def set_insort_insert)
  have 5: "\<forall>k\<in>set ?todo2. has_key mw0 k"
    using inv tr unfolding t2 by (auto simp: mc_inv_def)
  have 6: "root \<in> set ?todo2 \<union> set ?done1"
    using inv unfolding t2 by (auto simp: mc_inv_def set_insort_insert)
  show ?thesis unfolding mc_inv_def using 1 2 3 4 5 6 by blast
qed

lemma mc_loop_inv:
  "multimap_sorted spends \<Longrightarrow> \<forall>e\<in>set spends. has_key mw0 (snd e) \<Longrightarrow>
   mc_inv cv hb cc spends mw0 root todo dn mw \<Longrightarrow>
   \<exists>mw' dn'. MarkConflicted_loop cv hb cc spends todo dn mw = Inr mw'
             \<and> mc_inv cv hb cc spends mw0 root [] dn' mw'"
proof (induction cv hb cc spends todo dn mw rule: MarkConflicted_loop.induct)
  case (1 cv hb cc spends todo dn mw)
  show ?case
  proof (cases todo)
    case Nil
    then show ?thesis using "1.prems"(3) by (auto simp: MarkConflicted_loop_Nil)
  next
    case (Cons now rest)
    note inv = "1.prems"(3)[unfolded Cons]
    have "has_key mw now" using inv by (auto simp: mc_inv_def)
    then obtain wtx where f: "map_find mw now = Some wtx" by (auto simp: has_key_def)
    show ?thesis
    proof (cases "cc < GetDepthInMainChain cv wtx")
      case True
      define W where "W = MarkDirty (wtx\<lparr>nIndex := -1, hashBlock := hb\<rparr>)"
      note m = mc_inv_mark[OF inv "1.prems"(1) "1.prems"(2) f W_def]
      from "1.IH"(1)[OF Cons refl refl f True W_def refl refl refl "1.prems"(1) "1.prems"(2)]
        m[folded Cons]
      show ?thesis
        unfolding Cons MarkConflicted_loop_Cons using f True by (simp add: W_def Cons)
    next
      case False
      note m = mc_inv_skip[OF inv f False]
      from "1.IH"(2)[OF Cons refl refl f False "1.prems"(1) "1.prems"(2)] m[folded Cons]
      show ?thesis
        unfolding Cons MarkConflicted_loop_Cons using f False by (simp add: Cons)
    qed
  qed
qed

lemma mc_inv_initial:
  "has_key mw0 root \<Longrightarrow> mc_inv cv hb cc spends mw0 root [root] [] mw0"
  by (simp add: mc_inv_def)

lemma mc_reach_marked:
  assumes inv: "mc_inv cv hb cc (mapTxSpends w) (mapWallet w) root [] dn mw'"
    and r: "conflict_reach cv w cc root x"
  shows "x \<in> set dn \<and> (\<exists>t. cview mw' x = Some (t, hb, -1))"
  using r
proof (induction rule: conflict_reach.induct)
  case (reach_root wtx)
  have "root \<in> set dn" using inv by (simp add: mc_inv_def)
  then show ?case using inv reach_root unfolding mc_inv_def by blast
next
  case (reach_spender x op y wty)
  then have xd: "x \<in> set dn" by simp
  from reach_spender.hyps(1) obtain wx where wx: "map_find (mapWallet w) x = Some wx"
    "cc < GetDepthInMainChain cv wx"
    by (cases rule: conflict_reach.cases) auto
  have "\<forall>e\<in>set (mapTxSpends w). hash (fst e) = x \<longrightarrow> snd e \<in> set [] \<union> set dn"
    using inv xd wx unfolding mc_inv_def by blast
  then have yd: "y \<in> set dn" using reach_spender.hyps(2,3) by force
  then show ?case using inv reach_spender.hyps(4,5) unfolding mc_inv_def by blast
qed

lemma MarkConflicted_closure:
  assumes srt: "multimap_sorted (mapTxSpends w)"
    and tr: "\<forall>e\<in>set (mapTxSpends w). has_key (mapWallet w) (snd e)"
    and root: "has_key (mapWallet w) hashTx"
    and cc: "conflictconfirms_of cv hashBlk < 0"
  shows "\<exists>w'. MarkConflicted cv w hashBlk hashTx = Inr w'
           \<and> mapTxSpends w' = mapTxSpends w
           \<and> (\<forall>x. conflict_reach cv w (conflictconfirms_of cv hashBlk) hashTx x \<longrightarrow>
                 (\<exists>r. map_find (mapWallet w') x = Some r \<and> nIndex r = -1
                       \<and> hashBlock r = hashBlk))"
proof -
  let ?cc = "conflictconfirms_of cv hashBlk"
  from mc_loop_inv[OF srt tr mc_inv_initial[OF root], of cv hashBlk ?cc]
  obtain mw' dn' where l: "MarkConflicted_loop cv hashBlk ?cc (mapTxSpends w) [hashTx] []
                              (mapWallet w) = Inr mw'"
    and inv: "mc_inv cv hashBlk ?cc (mapTxSpends w) (mapWallet w) hashTx [] dn' mw'" by blast
  have m: "MarkConflicted cv w hashBlk hashTx = Inr (w\<lparr>mapWallet := mw'\<rparr>)"
    using cc l by (simp add: MarkConflicted_def Let_def)
  have "\<exists>r. map_find mw' x = Some r \<and> nIndex r = -1 \<and> hashBlock r = hashBlk"
    if "conflict_reach cv w ?cc hashTx x" for x
    using mc_reach_marked[OF inv that] by (auto simp: cview_def core_def)
  then show ?thesis using m by simp
qed

lemma conflictconfirms_tip: "conflictconfirms_of example_chain 500 = -1"
  by (simp add: conflictconfirms_of_def example_chain_def)

lemma depth_unconfirmed_example:
  "GetDepthInMainChain example_chain (example_wtx h ins outs) = 0"
  by (simp add: GetDepthInMainChain_def example_chain_def example_wtx_def hashUnset_def)

lemma depth_conflicted_495:
  "GetDepthInMainChain example_chain ((example_wtx h ins outs)\<lparr>hashBlock := 495\<rparr>) = -6"
  by (simp add: GetDepthInMainChain_def example_chain_def example_wtx_def hashUnset_def
        ABANDON_HASH_def)

lemma tx_MarkDirty [simp]: "tx (MarkDirty r) = tx r"
  by (simp add: MarkDirty_def)

lemma vin_example_wtx [simp]: "vin (tx (example_wtx h ins outs)) = ins"
  by (simp add: example_wtx_def)

lemma MarkConflicted_stale:
  "MarkConflicted example_chain stale_wallet 500 41 = Inr stale_wallet_after"
  apply (simp add: MarkConflicted_def conflictconfirms_tip stale_wallet_def stale_wallet_after_def
        MarkConflicted_loop_Cons MarkConflicted_loop_Nil map_find_def
        depth_unconfirmed_example depth_conflicted_495 spends_from_def outpoint_less_def
        enqueue_spenders_def mark_inputs_dirty_def mark_input_dirty_def spend_of_def
        insort_insert_key_def)
  apply (simp add: example_wtx_def MarkDirty_def)
  done

lemma mc_exact_skip:
  assumes inv: "mc_inv cv hb cc (mapTxSpends w) (mapWallet w) root (now # rest) dn mw"
    and ex: "mc_exact cv cc w root (now # rest) dn mw"
  shows "mc_exact cv cc w root (removeAll now (now # rest)) (insort_insert now dn) mw"
proof -
  have n: "now \<notin> set dn" using inv by (auto simp: mc_inv_def)
  have c: "cview mw now = cview (mapWallet w) now" using inv n by (simp add: mc_inv_def)
  have a: "\<forall>k\<in>set (insort_insert now dn). \<not> conflict_reach cv w cc root k
             \<longrightarrow> cview mw k = cview (mapWallet w) k"
    using ex c by (auto simp: mc_exact_def set_insort_insert)
  have b: "\<forall>k\<in>set (removeAll now (now # rest)) \<union> set (insort_insert now dn).
            k = root \<or> (\<exists>e\<in>set (mapTxSpends w).
                  snd e = k \<and> conflict_reach cv w cc root (hash (fst e)))"
    using ex by (auto simp: mc_exact_def set_insort_insert)
  show ?thesis unfolding mc_exact_def using a b by blast
qed

lemma mc_exact_now_reach:
  assumes inv: "mc_inv cv hb cc (mapTxSpends w) (mapWallet w) root (now # rest) dn mw"
    and ex: "mc_exact cv cc w root (now # rest) dn mw"
    and f: "map_find mw now = Some wtx"
    and g: "cc < GetDepthInMainChain cv wtx"
  shows "conflict_reach cv w cc root now"
proof -
  from mc_inv_now(2)[OF inv f] obtain r0 where
    r0: "map_find (mapWallet w) now = Some r0" "core wtx = core r0" by blast
  have g0: "cc < GetDepthInMainChain cv r0" using g depth_core[OF r0(2), of cv] by simp
  have "now = root \<or> (\<exists>e\<in>set (mapTxSpends w).
                  snd e = now \<and> conflict_reach cv w cc root (hash (fst e)))"
    using ex by (simp add: mc_exact_def)
  thus ?thesis
  proof
    assume "now = root"
    thus ?thesis using reach_root[OF _ g0, of w] r0(1) by simp
  next
    assume "\<exists>e\<in>set (mapTxSpends w). snd e = now \<and> conflict_reach cv w cc root (hash (fst e))"
    then obtain e where e: "e \<in> set (mapTxSpends w)" "snd e = now"
      "conflict_reach cv w cc root (hash (fst e))" by blast
    have m: "(fst e, now) \<in> set (mapTxSpends w)" using e(1,2) by (cases e) auto
    show ?thesis by (rule reach_spender[OF e(3) m refl r0(1) g0])
  qed
qed

lemma mc_exact_mark:
  assumes inv: "mc_inv cv hb cc (mapTxSpends w) (mapWallet w) root (now # rest) dn mw"
    and ex: "mc_exact cv cc w root (now # rest) dn mw"
    and srt: "multimap_sorted (mapTxSpends w)"
    and f: "map_find mw now = Some wtx"
    and g: "cc < GetDepthInMainChain cv wtx"
  shows "mc_exact cv cc w root
           (enqueue_spenders (spends_from (mapTxSpends w) now now) (insort_insert now dn)
              (removeAll now (now # rest)))
           (insort_insert now dn)
           (mark_inputs_dirty (vin (tx W)) (assign now W mw))"
proof -
  let ?todo2 = "enqueue_spenders (spends_from (mapTxSpends w) now now) (insort_insert now dn)
              (removeAll now (now # rest))"
  let ?done1 = "insort_insert now dn"
  let ?mw2 = "mark_inputs_dirty (vin (tx W)) (assign now W mw)"
  note rn = mc_exact_now_reach[OF inv ex f g]
  have hk: "has_key mw now" using f by (simp add: has_key_def)
  have cv2: "cview ?mw2 k = (if k = now then Some (core W) else cview mw k)" for k
    using hk by (simp add: cview_mark_inputs_dirty cview_assign)
  have t2: "set ?todo2 = set (removeAll now (now # rest))
                \<union> (snd ` {e \<in> set (mapTxSpends w). hash (fst e) = now} - set ?done1)"
    by (simp add: set_enqueue_spenders set_spends_from[OF srt])
  have a: "\<forall>k\<in>set ?done1. \<not> conflict_reach cv w cc root k
             \<longrightarrow> cview ?mw2 k = cview (mapWallet w) k"
  proof (intro ballI impI)
    fix k assume k: "k \<in> set ?done1" and nr: "\<not> conflict_reach cv w cc root k"
    have "k \<noteq> now" using nr rn by auto
    hence "k \<in> set dn" using k by (simp add: set_insort_insert)
    thus "cview ?mw2 k = cview (mapWallet w) k"
      using ex nr \<open>k \<noteq> now\<close> by (simp add: mc_exact_def cv2)
  qed
  have b: "\<forall>k\<in>set ?todo2 \<union> set ?done1.
            k = root \<or> (\<exists>e\<in>set (mapTxSpends w).
                  snd e = k \<and> conflict_reach cv w cc root (hash (fst e)))"
  proof
    fix k assume k: "k \<in> set ?todo2 \<union> set ?done1"
    show "k = root \<or> (\<exists>e\<in>set (mapTxSpends w).
                  snd e = k \<and> conflict_reach cv w cc root (hash (fst e)))"
    proof (cases "k \<in> set (now # rest) \<union> set dn")
      case True
      thus ?thesis using ex unfolding mc_exact_def by blast
    next
      case False
      hence "k \<in> snd ` {e \<in> set (mapTxSpends w). hash (fst e) = now}"
        using k unfolding t2 by (auto simp: set_insort_insert)
      then obtain e where "e \<in> set (mapTxSpends w)" "hash (fst e) = now" "snd e = k" by auto
      thus ?thesis using rn by blast
    qed
  qed
  show ?thesis unfolding mc_exact_def using a b by blast
qed

lemma mc_loop_exact:
  "spends = mapTxSpends w \<Longrightarrow> multimap_sorted spends \<Longrightarrow>
   \<forall>e\<in>set spends. has_key (mapWallet w) (snd e) \<Longrightarrow>
   mc_inv cv hb cc spends (mapWallet w) root todo dn mw \<Longrightarrow>
   mc_exact cv cc w root todo dn mw \<Longrightarrow>
   \<exists>mw' dn'. MarkConflicted_loop cv hb cc spends todo dn mw = Inr mw'
             \<and> mc_inv cv hb cc spends (mapWallet w) root [] dn' mw'
             \<and> mc_exact cv cc w root [] dn' mw'"
proof (induction cv hb cc spends todo dn mw rule: MarkConflicted_loop.induct)
  case (1 cv hb cc spends todo dn mw)
  note sp = "1.prems"(1) and srt = "1.prems"(2) and tr = "1.prems"(3)
  show ?case
  proof (cases todo)
    case Nil
    then show ?thesis using "1.prems"(4,5) by (auto simp: MarkConflicted_loop_Nil)
  next
    case (Cons now rest)
    note inv = "1.prems"(4)[unfolded Cons]
    note ex = "1.prems"(5)[unfolded Cons]
    have "has_key mw now" using inv by (auto simp: mc_inv_def)
    then obtain wtx where f: "map_find mw now = Some wtx" by (auto simp: has_key_def)
    show ?thesis
    proof (cases "cc < GetDepthInMainChain cv wtx")
      case True
      define W where "W = MarkDirty (wtx\<lparr>nIndex := -1, hashBlock := hb\<rparr>)"
      note m = mc_inv_mark[OF inv srt tr f W_def]
      note e = mc_exact_mark[OF inv[unfolded sp] ex srt[unfolded sp] f True, of W, folded sp]
      from "1.IH"(1)[OF Cons refl refl f True W_def refl refl refl sp srt tr]
        m[folded Cons] e[folded Cons]
      show ?thesis
        unfolding Cons MarkConflicted_loop_Cons using f True by (simp add: W_def Cons)
    next
      case False
      note m = mc_inv_skip[OF inv f False]
      note e = mc_exact_skip[OF inv[unfolded sp] ex]
      from "1.IH"(2)[OF Cons refl refl f False sp srt tr] m[folded Cons] e[folded Cons]
      show ?thesis
        unfolding Cons MarkConflicted_loop_Cons using f False by (simp add: Cons)
    qed
  qed
qed

lemma mc_exact_initial: "mc_exact cv cc w root [root] [] mw"
  by (simp add: mc_exact_def)

lemma MarkConflicted_exact:
  assumes srt: "multimap_sorted (mapTxSpends w)"
    and tr: "\<forall>e\<in>set (mapTxSpends w). has_key (mapWallet w) (snd e)"
    and root: "has_key (mapWallet w) hashTx"
    and cc: "conflictconfirms_of cv hashBlk < 0"
  shows "\<exists>w'. MarkConflicted cv w hashBlk hashTx = Inr w'
           \<and> mapTxSpends w' = mapTxSpends w
           \<and> (\<forall>x. conflict_reach cv w (conflictconfirms_of cv hashBlk) hashTx x \<longrightarrow>
                 (\<exists>r. map_find (mapWallet w') x = Some r \<and> nIndex r = -1
                       \<and> hashBlock r = hashBlk))
           \<and> (\<forall>x. \<not> conflict_reach cv w (conflictconfirms_of cv hashBlk) hashTx x \<longrightarrow>
                 map_option (\<lambda>r. (tx r, hashBlock r, nIndex r)) (map_find (mapWallet w') x)
                   = map_option (\<lambda>r. (tx r, hashBlock r, nIndex r)) (map_find (mapWallet w) x))"
proof -
  let ?cc = "conflictconfirms_of cv hashBlk"
  from mc_loop_exact[OF refl srt tr mc_inv_initial[OF root] mc_exact_initial,
      of cv hashBlk ?cc]
  obtain mw' dn' where l: "MarkConflicted_loop cv hashBlk ?cc (mapTxSpends w) [hashTx] []
                              (mapWallet w) = Inr mw'"
    and inv: "mc_inv cv hashBlk ?cc (mapTxSpends w) (mapWallet w) hashTx [] dn' mw'"
    and ex: "mc_exact cv ?cc w hashTx [] dn' mw'" by blast
  have m: "MarkConflicted cv w hashBlk hashTx = Inr (w\<lparr>mapWallet := mw'\<rparr>)"
    using cc l by (simp add: MarkConflicted_def Let_def)
  have a: "\<exists>r. map_find mw' x = Some r \<and> nIndex r = -1 \<and> hashBlock r = hashBlk"
    if "conflict_reach cv w ?cc hashTx x" for x
    using mc_reach_marked[OF inv that] by (auto simp: cview_def core_def)
  have b: "map_option (\<lambda>r. (tx r, hashBlock r, nIndex r)) (map_find mw' x)
             = map_option (\<lambda>r. (tx r, hashBlock r, nIndex r)) (map_find (mapWallet w) x)"
    if nr: "\<not> conflict_reach cv w ?cc hashTx x" for x
  proof -
    have "cview mw' x = cview (mapWallet w) x"
    proof (cases "x \<in> set dn'")
      case True
      thus ?thesis using ex nr by (simp add: mc_exact_def)
    next
      case False
      thus ?thesis using inv by (simp add: mc_inv_def)
    qed
    moreover have "core = (\<lambda>r. (tx r, hashBlock r, nIndex r))" by (rule ext) (simp add: core_def)
    ultimately show ?thesis by (simp add: cview_def)
  qed
  show ?thesis using m a b by simp
qed

lemma stale_wallet_finds:
  "map_find (mapWallet stale_wallet) 41 = Some (example_wtx 41 [spend_of 9 0] [pay 5])"
  "map_find (mapWallet stale_wallet) 42
     = Some ((example_wtx 42 [spend_of 41 0] [pay 4])\<lparr>hashBlock := 495\<rparr>)"
  "map_find (mapWallet stale_wallet) 43 = Some (example_wtx 43 [spend_of 42 0] [pay 3])"
  by (simp_all add: stale_wallet_def map_find_def)

lemma stale_42_not_reached:
  "\<not> conflict_reach example_chain stale_wallet (conflictconfirms_of example_chain 500) 41 42"
proof
  assume "conflict_reach example_chain stale_wallet (conflictconfirms_of example_chain 500) 41 42"
  thus False
    by (cases rule: conflict_reach.cases)
       (auto simp: stale_wallet_finds conflictconfirms_tip depth_conflicted_495)
qed

lemma stale_43_not_reached:
  "\<not> conflict_reach example_chain stale_wallet (conflictconfirms_of example_chain 500) 41 43"
proof
  assume "conflict_reach example_chain stale_wallet (conflictconfirms_of example_chain 500) 41 43"
  thus False
  proof (cases rule: conflict_reach.cases)
    case (reach_root wtx)
    thus False by simp
  next
    case (reach_spender x op wty)
    have "(op, 43) \<in> set (mapTxSpends stale_wallet)" using reach_spender(2) .
    hence "op = \<lparr>hash = 42, n_out = 0\<rparr>" by (auto simp: stale_wallet_def)
    hence "x = 42" using reach_spender(3) by simp
    thus False using reach_spender(1) stale_42_not_reached by simp
  qed
qed

subsection \<open>The balance view\<close>






















lemma IsTrusted_mempool_child:
  "IsTrusted example_own_env example_chain parent_not_in_mempool_wallet mempool_child
     = Inr (True, mempool_child\<lparr>DebitCached := (True, 8), WatchDebitCached := (True, 0)\<rparr>)"
  by code_simp

lemma GetBalance_parent_not_in_mempool:
  "map_sum id fst (GetBalance example_own_env example_chain parent_not_in_mempool_wallet) = Inr 7"
  by code_simp

lemma spec_trusted_mempool_child:
  "\<not> spec_trusted example_own_env example_chain parent_not_in_mempool_wallet 1 mempool_child"
  by code_simp

lemma spec_balance_parent_not_in_mempool:
  "spec_balance example_own_env example_chain parent_not_in_mempool_wallet 1 = 0"
  by code_simp

lemma trusted_credit_sum_example:
  "(\<Sum>e\<leftarrow>mapWallet parent_not_in_mempool_wallet.
       trusted_credit example_own_env example_chain parent_not_in_mempool_wallet (snd e)) = 7"
  by code_simp





lemma trusted_credit_sum_foreign_parent:
  "(\<Sum>e\<leftarrow>mapWallet foreign_parent_wallet.
       trusted_credit example_own_env example_chain foreign_parent_wallet (snd e)) = 8"
  by code_simp





text \<open>
  Beside the design: the comment at line 2069 reads "Trusted if all inputs are from us and
  are in the mempool", and the loop that follows never asks whether the parent is in the
  mempool.  Transaction 62 is in the mempool and spends an output of 61, which is
  unconfirmed and not in the mempool; \<open>IsTrusted\<close> accepts 62 and \<open>GetBalance\<close> counts
  its credit of 7.
\<close>

lemma IsTrusted_parent_not_in_mempool:
  "IsTrusted example_own_env example_chain parent_not_in_mempool_wallet mempool_child
     = Inr (True, mempool_child\<lparr>DebitCached := (True, 8), WatchDebitCached := (True, 0)\<rparr>)
   \<and> \<not> spec_trusted example_own_env example_chain parent_not_in_mempool_wallet 1 mempool_child
   \<and> map_sum id fst (GetBalance example_own_env example_chain parent_not_in_mempool_wallet)
       = Inr 7
   \<and> spec_balance example_own_env example_chain parent_not_in_mempool_wallet 1 = 0"
  using IsTrusted_mempool_child spec_trusted_mempool_child GetBalance_parent_not_in_mempool
    spec_balance_parent_not_in_mempool by simp

subsection \<open>Building a transaction\<close>

lemma sum_recipients_result:
  assumes "sum_recipients rs v n = Inr (v', n')"
  shows "v' = v + sum_list (map nAmount rs) \<and> n' = n + count_subtract rs"
  using assms
proof (induction rs arbitrary: v n)
  case Nil
  then show ?case by (simp add: count_subtract_def)
next
  case (Cons r rs)
  have "sum_recipients rs (v + nAmount r)
          (if fSubtractFeeFromAmount r then Suc n else n) = Inr (v', n')"
    using Cons.prems by (simp split: if_splits)
  from Cons.IH[OF this] show ?case by (simp add: count_subtract_def)
qed

lemma payee_vouts_sum:
  assumes "payee_vouts env rs F n fFirst acc = Inr vs"
  shows "sum_vout vs = sum_vout acc + sum_list (map nAmount rs)
            - int (count_subtract rs) * (F sdiv int n)
            - (if fFirst \<and> count_subtract rs > 0 then F smod int n else 0)
       \<and> length vs = length acc + length rs"
  using assms
proof (induction rs arbitrary: fFirst acc)
  case Nil
  then show ?case by (simp add: count_subtract_def)
next
  case (Cons r rs)
  let ?out = "\<lparr>nValue = (if fSubtractFeeFromAmount r
                   then nAmount r - F sdiv int n - (if fFirst then F smod int n else 0)
                   else nAmount r),
                scriptPubKey = r_scriptPubKey r\<rparr>"
  have rec: "payee_vouts env rs F n (fFirst \<and> \<not> fSubtractFeeFromAmount r) (acc @ [?out]) = Inr vs"
    using Cons.prems by (auto simp: Let_def split: if_splits)
  note ih = Cons.IH[OF rec]
  show ?case
  proof (cases "fSubtractFeeFromAmount r")
    case True
    then show ?thesis using ih
      by (simp add: count_subtract_def sum_vout_def algebra_simps)
  next
    case False
    then show ?thesis using ih
      by (simp add: count_subtract_def sum_vout_def algebra_simps)
  qed
qed

lemma payee_vouts_total:
  assumes p: "payee_vouts env vecSend F (count_subtract vecSend) True [] = Inr vs"
  shows "sum_vout vs + F
           = sum_list (map nAmount vecSend) + (if count_subtract vecSend = 0 then F else 0)"
    and "length vs = length vecSend"
proof -
  note s = payee_vouts_sum[OF p]
  let ?n = "int (count_subtract vecSend)"
  have id: "?n * (F sdiv ?n) + F smod ?n = F" by (rule mult_sdiv_smod_eq)
  show "sum_vout vs + F
           = sum_list (map nAmount vecSend) + (if count_subtract vecSend = 0 then F else 0)"
  proof (cases "count_subtract vecSend = 0")
    case True
    then show ?thesis using s by (simp add: sum_vout_def)
  next
    case False
    then show ?thesis using s id by (simp add: sum_vout_def)
  qed
  show "length vs = length vecSend" using s by simp
qed

lemma sum_vout_update:
  assumes "i < length outs"
  shows "sum_vout (outs[i := (outs ! i)\<lparr>nValue := nValue (outs ! i) + a\<rparr>]) = sum_vout outs + a"
  using assms
proof (induction outs arbitrary: i)
  case Nil
  then show ?case by simp
next
  case (Cons x xs)
  then show ?case by (cases i) (simp_all add: sum_vout_def)
qed

lemma sum_vout_update_minus:
  assumes "i < length outs"
  shows "sum_vout (outs[i := (outs ! i)\<lparr>nValue := nValue (outs ! i) - a\<rparr>]) = sum_vout outs - a"
  using assms
proof (induction outs arbitrary: i)
  case Nil
  then show ?case by simp
next
  case (Cons x xs)
  then show ?case by (cases i) (simp_all add: sum_vout_def)
qed

lemma sum_vout_insert:
  "sum_vout (take p outs @ x # drop p outs) = sum_vout outs + nValue x"
proof -
  have "sum_vout (take p outs @ drop p outs) = sum_vout outs" by simp
  thus ?thesis by (simp add: sum_vout_def del: append_take_drop_id)
qed

lemma first_subtract_Some:
  assumes "count_subtract rs > 0"
  shows "\<exists>j. first_subtract rs i = Some j \<and> i \<le> j \<and> j < i + length rs"
  using assms
proof (induction rs arbitrary: i)
  case Nil
  then show ?case by (simp add: count_subtract_def)
next
  case (Cons r rs)
  show ?case
  proof (cases "fSubtractFeeFromAmount r")
    case True
    then show ?thesis by simp
  next
    case False
    hence "count_subtract rs > 0" using Cons.prems by (simp add: count_subtract_def)
    from Cons.IH[OF this, of "Suc i"] False show ?thesis by auto
  qed
qed

lemma raise_dust_change_sum:
  assumes r: "raise_dust_change env vecSend (count_subtract vecSend) outs new = Inr (outs1, new1)"
    and len: "length outs = length vecSend"
    and thr: "\<forall>out. \<not> CTxOut_IsDust env (out\<lparr>nValue := GetDustThreshold_minRelayTxFee env out\<rparr>)"
  shows "sum_vout outs1 + nValue new1 = sum_vout outs + nValue new
       \<and> (CTxOut_IsDust env new1 \<longrightarrow> outs1 = outs \<and> new1 = new)
       \<and> (count_subtract vecSend = 0 \<longrightarrow> outs1 = outs \<and> new1 = new)
       \<and> length outs1 = length outs"
proof (cases "count_subtract vecSend > 0 \<and> CTxOut_IsDust env new")
  case False
  then show ?thesis using r by (auto simp: raise_dust_change_def)
next
  case True
  then obtain j where j: "first_subtract vecSend 0 = Some j" "j < length vecSend"
    using first_subtract_Some[of vecSend 0] by auto
  let ?d = "GetDustThreshold_minRelayTxFee env new - nValue new"
  have n1: "new1 = new\<lparr>nValue := GetDustThreshold_minRelayTxFee env new\<rparr>"
    and o1: "outs1 = outs[j := (outs ! j)\<lparr>nValue := nValue (outs ! j) - ?d\<rparr>]"
    using r True j len
    by (auto simp: raise_dust_change_def Let_def split: if_splits)
  have nd: "\<not> CTxOut_IsDust env new1" using thr n1 by simp
  have "sum_vout outs1 = sum_vout outs - ?d"
    unfolding o1 using j len by (intro sum_vout_update_minus) simp
  then show ?thesis using nd n1 o1 True by simp
qed

lemma change_section_sum:
  assumes c: "change_section env k cc nCoinType vecSend (count_subtract vecSend) pos outs F nChange
                = Inr (outs', F', pos', cand')"
    and len: "length outs = length vecSend"
    and thr: "\<forall>out. \<not> CTxOut_IsDust env (out\<lparr>nValue := GetDustThreshold_minRelayTxFee env out\<rparr>)"
  shows "sum_vout outs' + F' = sum_vout outs + F + (if nChange > 0 then nChange else 0)
       \<and> (count_subtract vecSend = 0 \<longrightarrow> sum_vout outs \<le> sum_vout outs')"
proof (cases "nChange > 0 \<and> nCoinType \<noteq> ONLY_DENOMINATED")
  case False
  then show ?thesis using c by (auto simp: change_section_def split: if_splits)
next
  case True
  then obtain scriptChange where
    sc: "(case destChange cc of Some s \<Rightarrow> Some s | None \<Rightarrow> GetReservedKey env k) = Some scriptChange"
    using c by (auto simp: change_section_def split: option.splits)
  let ?new = "\<lparr>nValue = nChange, scriptPubKey = scriptChange\<rparr>"
  obtain outs1 new1 where
    r: "raise_dust_change env vecSend (count_subtract vecSend) outs ?new = Inr (outs1, new1)"
    using c True sc by (auto simp: change_section_def Let_def split: sum.splits)
  note rs = raise_dust_change_sum[OF r len thr]
  have s1: "sum_vout outs1 + nValue new1 = sum_vout outs + nChange" using rs by simp
  have same: "count_subtract vecSend = 0 \<longrightarrow> outs1 = outs \<and> new1 = ?new" using rs by simp
  show ?thesis
  proof (cases "CTxOut_IsDust env new1")
    case d: True
    hence "outs1 = outs" using rs by simp
    moreover have "outs' = outs1" "F' = F + nChange"
      using c True sc r d by (auto simp: change_section_def Let_def)
    ultimately show ?thesis using True by simp
  next
    case nd: False
    then obtain p where o: "outs' = take p outs1 @ new1 # drop p outs1" and f: "F' = F"
      using c True sc r by (auto simp: change_section_def Let_def split: if_splits)
    have "sum_vout outs' = sum_vout outs1 + nValue new1" unfolding o by (rule sum_vout_insert)
    then show ?thesis using s1 f True same by auto
  qed
qed

lemma sum_vout_add_to_change:
  assumes "change_position_ok pos outs"
  shows "sum_vout (add_to_change pos a outs) = sum_vout outs + a"
  using assms unfolding change_position_ok_def add_to_change_def
  by (intro sum_vout_update) simp

lemma fee_section_Break:
  assumes "fee_section env proto S outs F pos n pick = Inr (Break outs2 F2)"
  shows "sum_vout outs2 + F2 = sum_vout outs + F"
  using assms
  by (auto simp: fee_section_def Let_def sum_vout_add_to_change split: if_splits)

lemma fee_section_Continue:
  assumes "fee_section env proto S outs F pos n pick = Inr (Continue pick' F')"
    and "\<forall>out. 0 \<le> GetDustThreshold_discard_rate env out"
  shows "pick' \<or> n > 0 \<or> (n = 0 \<and> F' \<le> F)"
  using assms
proof -
  have "0 \<le> GetDustThreshold_discard_rate env proto" using assms(2) by simp
  thus ?thesis using assms(1)
    by (auto simp: fee_section_def Let_def split: if_splits)
qed

lemma distinct_insert_sorted:
  "distinct (map outpoint (insert_sorted c S))
     = (outpoint c \<notin> outpoint ` set S \<and> distinct (map outpoint S))"
  by (induction S) (auto simp: set_insert_sorted)

lemma distinct_set_insert:
  "distinct (map outpoint S) \<Longrightarrow> distinct (map outpoint (set_insert c S))"
  unfolding set_insert_def set_insert_present
  by (auto simp: distinct_insert_sorted)

lemma outpoints_set_insert:
  "outpoint ` set (set_insert c S) = insert (outpoint c) (outpoint ` set S)"
  by (auto simp: set_set_insert)

lemma sum_coins_set_insert:
  "outpoint c \<notin> outpoint ` set S \<Longrightarrow> sum_coins (set_insert c S) = coin_value c + sum_coins S"
  unfolding sum_coins_def by (rule sum_set_insert)

lemma select_all_selected_sum:
  assumes "distinct (map (\<lambda>out. outpoint (mk_CInputCoin out)) outs)"
    and "\<forall>out\<in>set outs. outpoint (mk_CInputCoin out) \<notin> outpoint ` set S"
    and "select_all_selected env ct outs (S, v) = (S', v')"
  shows "sum_coins S' - v' = sum_coins S - v"
  using assms
proof (induction outs arbitrary: S v)
  case Nil
  then show ?case by simp
next
  case (Cons out rest)
  let ?c = "mk_CInputCoin out"
  have d: "distinct (map (\<lambda>out. outpoint (mk_CInputCoin out)) rest)" using Cons.prems(1) by simp
  have hd: "outpoint (mk_CInputCoin x) \<noteq> outpoint ?c" if "x \<in> set rest" for x
  proof
    assume e: "outpoint (mk_CInputCoin x) = outpoint ?c"
    have "outpoint ?c \<in> (\<lambda>out. outpoint (mk_CInputCoin out)) ` set rest"
      by (rule image_eqI[where x=x]) (simp_all add: e that)
    thus False using Cons.prems(1) by simp
  qed
  show ?case
  proof (cases "fSpendable out \<and> \<not> (ct = ONLY_DENOMINATED
              \<and> GetInputPrivateSendRounds env (outpoint ?c) < nPrivateSendRounds env)")
    case False
    have "select_all_selected env ct rest (S, v) = (S', v')"
    proof (cases "fSpendable out")
      case f: False
      thus ?thesis using Cons.prems(3) by simp
    next
      case t: True
      hence "ct = ONLY_DENOMINATED \<and> GetInputPrivateSendRounds env (outpoint ?c)
                < nPrivateSendRounds env" using False by blast
      thus ?thesis using Cons.prems(3) t by simp
    qed
    from Cons.IH[OF d _ this] Cons.prems(2) show ?thesis by simp
  next
    case True
    have r: "select_all_selected env ct rest (set_insert ?c S, v + nValue (tx_out out)) = (S', v')"
    proof (cases "ct = ONLY_DENOMINATED")
      case f: False
      thus ?thesis using Cons.prems(3) True by simp
    next
      case t: True
      hence "\<not> GetInputPrivateSendRounds env (outpoint ?c) < nPrivateSendRounds env"
        using True by blast
      thus ?thesis using Cons.prems(3) True t by simp
    qed
    have notin: "outpoint ?c \<notin> outpoint ` set S" using Cons.prems(2) by simp
    have "\<forall>x\<in>set rest. outpoint (mk_CInputCoin x) \<notin> outpoint ` set (set_insert ?c S)"
      using Cons.prems(2) hd by (simp add: outpoints_set_insert)
    from Cons.IH[OF d this r] show ?thesis
      using sum_coins_set_insert[OF notin] by simp
  qed
qed

lemma select_denom_sum:
  assumes "distinct (map (\<lambda>out. outpoint (mk_CInputCoin out)) outs)"
    and "\<forall>out\<in>set outs. nValue (tx_out out) = d \<longrightarrow> outpoint (mk_CInputCoin out) \<notin> outpoint ` set S"
    and "select_denom env d t sm outs (S, v) = (S', v')"
  shows "sum_coins S' - v' = sum_coins S - v
       \<and> outpoint ` set S' \<subseteq> outpoint ` set S
            \<union> {outpoint (mk_CInputCoin out) | out. out \<in> set outs \<and> nValue (tx_out out) = d}"
  using assms
proof (induction outs arbitrary: S v)
  case Nil
  then show ?case by simp
next
  case (Cons out rest)
  let ?c = "mk_CInputCoin out"
  have d: "distinct (map (\<lambda>out. outpoint (mk_CInputCoin out)) rest)" using Cons.prems(1) by simp
  have hd: "outpoint (mk_CInputCoin x) \<noteq> outpoint ?c" if "x \<in> set rest" for x
  proof
    assume e: "outpoint (mk_CInputCoin x) = outpoint ?c"
    have "outpoint ?c \<in> (\<lambda>out. outpoint (mk_CInputCoin out)) ` set rest"
      by (rule image_eqI[where x=x]) (simp_all add: e that)
    thus False using Cons.prems(1) by simp
  qed
  show ?case
  proof (cases "nValue (tx_out out) = d \<and> v + d < t + sm
            \<and> \<not> GetInputPrivateSendRounds env (outpoint ?c) < nPrivateSendRounds env")
    case False
    have r: "select_denom env d t sm rest (S, v) = (S', v')"
    proof (cases "nValue (tx_out out) = d \<and> v + d < t + sm")
      case f: False
      thus ?thesis using Cons.prems(3) by auto
    next
      case t: True
      hence "GetInputPrivateSendRounds env (outpoint ?c) < nPrivateSendRounds env"
        using False by blast
      thus ?thesis using Cons.prems(3) t by simp
    qed
    have "\<forall>x\<in>set rest. nValue (tx_out x) = d \<longrightarrow> outpoint (mk_CInputCoin x) \<notin> outpoint ` set S"
      using Cons.prems(2) by simp
    from Cons.IH[OF d this r] show ?thesis by auto
  next
    case True
    have r: "select_denom env d t sm rest (set_insert ?c S, v + d) = (S', v')"
      using Cons.prems(3) True by simp
    have notin: "outpoint ?c \<notin> outpoint ` set S" using Cons.prems(2) True by simp
    have "\<forall>x\<in>set rest. nValue (tx_out x) = d
            \<longrightarrow> outpoint (mk_CInputCoin x) \<notin> outpoint ` set (set_insert ?c S)"
      using Cons.prems(2) hd by (simp add: outpoints_set_insert)
    from Cons.IH[OF d this r] show ?thesis
      using sum_coins_set_insert[OF notin] True by (auto simp: outpoints_set_insert)
  qed
qed

lemma select_denoms_sum:
  assumes "distinct ds"
    and "distinct (map (\<lambda>out. outpoint (mk_CInputCoin out)) vCoins)"
    and "\<forall>out\<in>set vCoins. nValue (tx_out out) \<in> set ds
           \<longrightarrow> outpoint (mk_CInputCoin out) \<notin> outpoint ` set S"
    and "select_denoms env ds t sm vCoins (S, v) = (S', v')"
  shows "sum_coins S' - v' = sum_coins S - v"
  using assms
proof (induction ds arbitrary: S v)
  case Nil
  then show ?case by simp
next
  case (Cons d rest)
  obtain S1 v1 where s1: "select_denom env d t sm vCoins (S, v) = (S1, v1)"
    by (cases "select_denom env d t sm vCoins (S, v)")
  have p: "\<forall>out\<in>set vCoins. nValue (tx_out out) = d
             \<longrightarrow> outpoint (mk_CInputCoin out) \<notin> outpoint ` set S"
    using Cons.prems(3) by simp
  note a = select_denom_sum[OF Cons.prems(2) p s1]
  have r: "select_denoms env rest t sm vCoins (S1, v1) = (S', v')"
    using Cons.prems(4) s1 by simp
  have inj: "inj_on (\<lambda>out. outpoint (mk_CInputCoin out)) (set vCoins)"
    using Cons.prems(2) by (simp add: distinct_map)
  have q: "\<forall>out\<in>set vCoins. nValue (tx_out out) \<in> set rest
             \<longrightarrow> outpoint (mk_CInputCoin out) \<notin> outpoint ` set S1"
  proof (intro ballI impI notI)
    fix out assume o: "out \<in> set vCoins" "nValue (tx_out out) \<in> set rest"
      "outpoint (mk_CInputCoin out) \<in> outpoint ` set S1"
    have nd: "nValue (tx_out out) \<noteq> d" using o(2) Cons.prems(1) by auto
    have "outpoint (mk_CInputCoin out) \<notin> outpoint ` set S" using Cons.prems(3) o by simp
    then obtain o' where o': "o' \<in> set vCoins" "nValue (tx_out o') = d"
      "outpoint (mk_CInputCoin out) = outpoint (mk_CInputCoin o')"
      using a o(3) by blast
    hence "out = o'" using inj o(1) by (auto dest: inj_onD)
    thus False using nd o'(2) by simp
  qed
  have dr: "distinct rest" using Cons.prems(1) by simp
  from Cons.IH[OF dr Cons.prems(2) q r] a show ?case by simp
qed

lemma preset_inputs_sum:
  assumes "\<forall>e\<in>set (mapWallet w). txhash (tx (snd e)) = fst e"
    and "distinct ops"
    and "\<forall>op\<in>set ops. op \<notin> outpoint ` set P"
    and "distinct (map outpoint P)"
    and "preset_inputs w ops (P, pv) = Some (P', pv')"
  shows "sum_coins P' - pv' = sum_coins P - pv
       \<and> outpoint ` set P' = outpoint ` set P \<union> set ops
       \<and> distinct (map outpoint P')"
  using assms
proof (induction ops arbitrary: P pv)
  case Nil
  then show ?case by simp
next
  case (Cons op rest)
  obtain pcoin where f: "map_find (mapWallet w) (hash op) = Some pcoin"
    using Cons.prems(5) by (auto split: option.splits)
  have len: "\<not> length (vout (tx pcoin)) \<le> n_out op"
    using Cons.prems(5) f by (auto split: if_splits)
  let ?c = "CInputCoin_of pcoin (n_out op)"
  have "(hash op, pcoin) \<in> set (mapWallet w)" using f by (simp add: map_find_def map_of_SomeD)
  hence "txhash (tx pcoin) = hash op" using Cons.prems(1) by fastforce
  hence oc: "outpoint ?c = op" by (simp add: CInputCoin_of_def)
  have cv: "coin_value ?c = nValue (vout (tx pcoin) ! n_out op)"
    by (simp add: CInputCoin_of_def coin_value_def)
  have r: "preset_inputs w rest (set_insert ?c P, pv + nValue (vout (tx pcoin) ! n_out op))
             = Some (P', pv')"
    using Cons.prems(5) f len by simp
  have notin: "outpoint ?c \<notin> outpoint ` set P" using Cons.prems(3) oc by simp
  have a: "\<forall>op\<in>set rest. op \<notin> outpoint ` set (set_insert ?c P)"
    using Cons.prems(2,3) oc by (auto simp: outpoints_set_insert)
  have dr: "distinct rest" using Cons.prems(2) by simp
  note ih = Cons.IH[OF Cons.prems(1) dr a distinct_set_insert[OF Cons.prems(4)] r]
  show ?case using ih sum_coins_set_insert[OF notin] cv oc
    by (auto simp: outpoints_set_insert)
qed

lemma fold_set_insert_sum:
  assumes "distinct (map outpoint P)" and "outpoint ` set P \<inter> outpoint ` set S = {}"
  shows "sum_coins (fold set_insert P S) = sum_coins S + sum_coins P"
  using assms
proof (induction P arbitrary: S)
  case Nil
  then show ?case by (simp add: sum_coins_def)
next
  case (Cons c P)
  have notin: "outpoint c \<notin> outpoint ` set S" using Cons.prems(2) by auto
  have "outpoint ` set P \<inter> outpoint ` set (set_insert c S) = {}"
    using Cons.prems by (auto simp: outpoints_set_insert)
  from Cons.IH[OF _ this] Cons.prems(1) sum_coins_set_insert[OF notin]
  show ?case by (simp add: sum_coins_def)
qed

lemma or_else_True:
  assumes "or_else st g a = (True, S, v)"
  shows "st = (True, S, v) \<or> a = (True, S, v)"
  using assms by (cases st) (auto simp: or_else_def split: if_splits)

lemma SelectCoins_tiers:
  assumes "(let st0 = (c0, S00, v00);
                st1 = or_else st0 True (SelectCoinsMinConf (se 0) t 1 6 0 vCoins);
                st2 = or_else st1 True (SelectCoinsMinConf (se 1) t 1 1 0 vCoins);
                st3 = or_else st2 zc (SelectCoinsMinConf (se 2) t 0 1 2 vCoins);
                st4 = or_else st3 zc (SelectCoinsMinConf (se 3) t 0 1 m4 vCoins);
                st5 = or_else st4 zc (SelectCoinsMinConf (se 4) t 0 1 m5 vCoins);
                st6 = or_else st5 zc (SelectCoinsMinConf (se 5) t 0 1 m6 vCoins);
                st7 = or_else st6 g7 (SelectCoinsMinConf (se 6) t 0 1 m7 vCoins)
            in st7) = (True, S0, v0)"
  shows "(c0 \<and> S0 = S00 \<and> v0 = v00)
       \<or> (\<exists>j cm ct ma. SelectCoinsMinConf (se j) t cm ct ma vCoins = (True, S0, v0))"
proof -
  let ?st0 = "(c0, S00, v00)"
  let ?st1 = "or_else ?st0 True (SelectCoinsMinConf (se 0) t 1 6 0 vCoins)"
  let ?st2 = "or_else ?st1 True (SelectCoinsMinConf (se 1) t 1 1 0 vCoins)"
  let ?st3 = "or_else ?st2 zc (SelectCoinsMinConf (se 2) t 0 1 2 vCoins)"
  let ?st4 = "or_else ?st3 zc (SelectCoinsMinConf (se 3) t 0 1 m4 vCoins)"
  let ?st5 = "or_else ?st4 zc (SelectCoinsMinConf (se 4) t 0 1 m5 vCoins)"
  let ?st6 = "or_else ?st5 zc (SelectCoinsMinConf (se 5) t 0 1 m6 vCoins)"
  let ?R = "\<exists>j cm ct ma. SelectCoinsMinConf (se j) t cm ct ma vCoins = (True, S0, v0)"
  have 7: "or_else ?st6 g7 (SelectCoinsMinConf (se 6) t 0 1 m7 vCoins) = (True, S0, v0)"
    using assms by (simp add: Let_def)
  have "?st6 = (True, S0, v0) \<or> ?R" using or_else_True[OF 7] by blast
  hence "?st5 = (True, S0, v0) \<or> ?R" using or_else_True[of ?st5] by blast
  hence "?st4 = (True, S0, v0) \<or> ?R" using or_else_True[of ?st4] by blast
  hence "?st3 = (True, S0, v0) \<or> ?R" using or_else_True[of ?st3] by blast
  hence "?st2 = (True, S0, v0) \<or> ?R" using or_else_True[of ?st2] by blast
  hence "?st1 = (True, S0, v0) \<or> ?R" using or_else_True[of ?st1] by blast
  hence "?st0 = (True, S0, v0) \<or> ?R" using or_else_True[of ?st0] by blast
  thus ?thesis by auto
qed

lemma SelectCoins_post:
  assumes mc: "\<forall>j. 0 \<le> MIN_CHANGE (select_envs env k j)"
    and dist: "distinct (map (\<lambda>out. outpoint (mk_CInputCoin out)) vAvail)"
    and den: "distinct (vecPrivateSendDenominations env)"
    and sel: "\<forall>cc. cco = Some cc \<longrightarrow> distinct (setSelected cc)"
    and keys: "\<forall>e\<in>set (mapWallet w). txhash (tx (snd e)) = fst e"
    and res: "SelectCoins env k w vAvail t [] 0 cco ct = Inr (True, S, v)"
  shows "t \<le> v \<and> sum_coins S = v"
proof -
  let ?all = "(case cco of None \<Rightarrow> False | Some cc \<Rightarrow> HasSelected cc \<and> \<not> fAllowOtherInputs cc)"
  let ?has = "(case cco of None \<Rightarrow> False | Some cc \<Rightarrow> HasSelected cc)"
  let ?ops = "(case cco of None \<Rightarrow> [] | Some cc \<Rightarrow> setSelected cc)"
  show ?thesis
  proof (cases ?all)
    case True
    hence r: "select_all_selected env ct vAvail ([], 0) = (S, v)" and tv: "t \<le> v"
      using res by (auto simp: SelectCoins_def split: prod.splits)
    from select_all_selected_sum[OF dist _ r] tv show ?thesis by (simp add: sum_coins_def)
  next
    case nall: False
    show ?thesis
    proof (cases "ct = ONLY_DENOMINATED")
      case True
      hence r: "select_denoms env (vecPrivateSendDenominations env) t
                  (last (vecPrivateSendDenominations env)) vAvail ([], 0) = (S, v)"
        and tv: "t \<le> v"
        using res nall by (auto simp: SelectCoins_def split: prod.splits if_splits)
      from select_denoms_sum[OF den dist _ r] tv show ?thesis by (simp add: sum_coins_def)
    next
      case nden: False
      obtain P pv where pre: "preset_inputs w ?ops ([], 0) = Some (P, pv)"
        using res nall nden by (auto simp: SelectCoins_def Let_def split: option.splits)
      have dops: "distinct ?ops" using sel by (cases cco) auto
      have pp: "sum_coins P = pv" "outpoint ` set P = set ?ops" "distinct (map outpoint P)"
        using preset_inputs_sum[OF keys dops _ _ pre] by (simp_all add: sum_coins_def)
      let ?vCoins = "(if ?has
                      then filter (\<lambda>out. \<not> set_count P (mk_CInputCoin out)) vAvail
                      else vAvail)"
      obtain S0 v0 where
        st: "(let st0 = (t \<le> pv, [], 0);
                  st1 = or_else st0 True
                          (SelectCoinsMinConf (select_envs env k 0) (t - pv) 1 6 0 ?vCoins);
                  st2 = or_else st1 True
                          (SelectCoinsMinConf (select_envs env k 1) (t - pv) 1 1 0 ?vCoins);
                  st3 = or_else st2 (wallet_bSpendZeroConfChange env)
                          (SelectCoinsMinConf (select_envs env k 2) (t - pv) 0 1 2 ?vCoins);
                  st4 = or_else st3 (wallet_bSpendZeroConfChange env)
                          (SelectCoinsMinConf (select_envs env k 3) (t - pv) 0 1
                             (min 4 (nMaxChainLength env div 3)) ?vCoins);
                  st5 = or_else st4 (wallet_bSpendZeroConfChange env)
                          (SelectCoinsMinConf (select_envs env k 4) (t - pv) 0 1
                             (nMaxChainLength env div 2) ?vCoins);
                  st6 = or_else st5 (wallet_bSpendZeroConfChange env)
                          (SelectCoinsMinConf (select_envs env k 5) (t - pv) 0 1
                             (nMaxChainLength env) ?vCoins);
                  st7 = or_else st6
                          (wallet_bSpendZeroConfChange env \<and> \<not> walletrejectlongchains env)
                          (SelectCoinsMinConf (select_envs env k 6) (t - pv) 0 1
                             18446744073709551615 ?vCoins)
              in st7) = (True, S0, v0)"
        and S: "S = fold set_insert P S0" and v: "v = v0 + pv"
        using res nall nden pre
        by (auto simp: SelectCoins_def Let_def split: prod.splits)
      from SelectCoins_tiers[OF st]
      have "t - pv \<le> v0 \<and> sum_coins S0 = v0 \<and> outpoint ` set P \<inter> outpoint ` set S0 = {}"
      proof (elim disjE conjE exE)
        assume "t \<le> pv" "S0 = []" "v0 = 0"
        thus ?thesis by (simp add: sum_coins_def)
      next
        fix j cm ct' ma
        assume a: "SelectCoinsMinConf (select_envs env k j) (t - pv) cm ct' ma ?vCoins
                     = (True, S0, v0)"
        have m: "0 \<le> MIN_CHANGE (select_envs env k j)" using mc by simp
        have dv: "distinct (map (\<lambda>cand. outpoint (mk_CInputCoin cand)) ?vCoins)"
          using dist by (simp add: distinct_map_filter)
        note post = SelectCoinsMinConf_post[OF m dv a]
        have "outpoint ` set P \<inter> outpoint ` set S0 = {}"
        proof (cases ?has)
          case True
          have "outpoint c \<notin> outpoint ` set P" if "c \<in> set S0" for c
          proof -
            from that post obtain out where o: "out \<in> set ?vCoins" "c = mk_CInputCoin out"
              by auto
            hence "\<not> set_count P (mk_CInputCoin out)" using True by simp
            thus ?thesis using o(2) by (auto simp: set_count_def)
          qed
          hence no: "\<And>c. c \<in> set S0 \<Longrightarrow> outpoint c \<notin> outpoint ` set P" .
          show ?thesis
          proof (rule ccontr)
            assume "outpoint ` set P \<inter> outpoint ` set S0 \<noteq> {}"
            then obtain x where x: "x \<in> outpoint ` set P" "x \<in> outpoint ` set S0" by blast
            then obtain c where c: "c \<in> set S0" "x = outpoint c" by blast
            show False using no[OF c(1)] x(1) c(2) by simp
          qed
        next
          case False
          hence "?ops = []" by (cases cco) (auto simp: HasSelected_def)
          hence "P = []" using pp(2) by simp
          thus ?thesis by simp
        qed
        thus ?thesis using post by (simp add: sum_coins_def)
      qed
      hence "t \<le> v" "sum_coins S0 = v0" "outpoint ` set P \<inter> outpoint ` set S0 = {}"
        using v by auto
      thus ?thesis
        using fold_set_insert_sum[OF pp(3), of S0] pp(1) S v by simp
    qed
  qed
qed

lemma CreateTransaction_loop_conserves:
  assumes mc: "\<forall>k j. 0 \<le> MIN_CHANGE (select_envs env k j)"
    and dist: "distinct (map (\<lambda>out. outpoint (mk_CInputCoin out)) vAvail)"
    and den: "distinct (vecPrivateSendDenominations env)"
    and sel: "distinct (setSelected cc)"
    and keys: "\<forall>e\<in>set (mapWallet w). txhash (tx (snd e)) = fst e"
    and thr: "\<forall>out. \<not> CTxOut_IsDust env (out\<lparr>nValue := GetDustThreshold_minRelayTxFee env out\<rparr>)"
    and disc: "\<forall>out. 0 \<le> GetDustThreshold_discard_rate env out"
  shows "pick \<or> (sum_coins S = vi
                  \<and> vi \<ge> sum_list (map nAmount vecSend)
                           + (if count_subtract vecSend = 0 then F else 0)) \<Longrightarrow>
         CreateTransaction_loop passes env w vecSend cc ct vAvail (sum_list (map nAmount vecSend))
           (count_subtract vecSend) req proto k F pick vi S = Some (Inr r) \<Longrightarrow>
         sum_coins (res_setCoins r) = sum_vout (res_vout r) + res_nFeeRet r
         \<and> res_nValueIn r = sum_coins (res_setCoins r)
         \<and> res_vin r = map (\<lambda>coin. \<lparr>prevout = outpoint coin, scriptSig = []\<rparr>) (res_setCoins r)"
proof (induction passes arbitrary: k F pick vi S)
  case 0
  then show ?case by simp
next
  case (Suc passes)
  let ?n = "count_subtract vecSend"
  let ?nValue = "sum_list (map nAmount vecSend)"
  let ?t = "?nValue + (if ?n = 0 then F else 0)"
  note run = Suc.prems(2)
  obtain vout0 where p: "payee_vouts env vecSend F ?n True [] = Inr vout0"
    using run by (cases "payee_vouts env vecSend F ?n True []") auto
  let ?sel = "(if pick
               then (case SelectCoins env k w vAvail ?t [] 0 (Some cc) (SelectCoins_nCoinType env) of
                       Inl e \<Rightarrow> Inl e
                     | Inr (ok, S, v) \<Rightarrow>
                         if ok then Inr (S, v) else Inl (Refused ''Insufficient funds''))
               else Inr (S, vi))"
  obtain S1 v1 where s: "?sel = Inr (S1, v1)"
    using run p by (cases ?sel) (auto simp: Let_def)
  obtain vout1 F1 pos1 cand where
    c: "change_section env k cc ct vecSend ?n req vout0 F (v1 - ?t) = Inr (vout1, F1, pos1, cand)"
    using run p s
    by (cases "change_section env k cc ct vecSend ?n req vout0 F (v1 - ?t)")
       (auto simp: Let_def)
  obtain step where f: "fee_section env proto S1 vout1 F1 pos1 ?n pick = Inr step"
    using run p s c
    by (cases "fee_section env proto S1 vout1 F1 pos1 ?n pick") (auto simp: Let_def)
  have selok: "?t \<le> v1 \<and> sum_coins S1 = v1"
  proof (cases pick)
    case True
    hence "SelectCoins env k w vAvail ?t [] 0 (Some cc) (SelectCoins_nCoinType env)
             = Inr (True, S1, v1)"
      using s by (auto split: sum.splits if_splits)
    from SelectCoins_post[OF _ dist den _ keys this] mc sel show ?thesis by simp
  next
    case False
    then show ?thesis using s Suc.prems(1) by simp
  qed
  note pt = payee_vouts_total[OF p]
  note cs = change_section_sum[OF c pt(2) thr]
  have v1: "sum_vout vout1 + F1 = v1" using cs pt(1) selok by (simp split: if_splits)
  show ?case
  proof (cases step)
    case (Break vout2 F2)
    have r: "r = \<lparr>res_setCoins = S1,
                  res_vin = map (\<lambda>coin. \<lparr>prevout = outpoint coin, scriptSig = []\<rparr>) S1,
                  res_vout = vout2, res_nFeeRet = F2, res_nChangePosInOut = pos1,
                  res_nValueIn = v1, res_newTxOut = cand\<rparr>"
      using run p s c f Break by (simp add: Let_def)
    have "sum_vout vout2 + F2 = sum_vout vout1 + F1"
      using fee_section_Break f Break by simp
    then show ?thesis using r v1 selok by simp
  next
    case (Continue pick' F')
    have next_run: "CreateTransaction_loop passes env w vecSend cc ct vAvail ?nValue ?n req proto
                      (Suc k) F' pick' v1 S1 = Some (Inr r)"
      using run p s c f Continue by (simp add: Let_def)
    have "pick' \<or> ?n > 0 \<or> (?n = 0 \<and> F' \<le> F1)"
      using fee_section_Continue[OF _ disc] f Continue by simp
    hence "pick' \<or> (sum_coins S1 = v1 \<and> v1 \<ge> ?nValue + (if ?n = 0 then F' else 0))"
    proof (elim disjE)
      assume "?n > 0"
      thus ?thesis using selok by simp
    next
      assume a: "?n = 0 \<and> F' \<le> F1"
      hence "sum_vout vout0 \<le> sum_vout vout1" using cs by simp
      moreover have "sum_vout vout0 = ?nValue" using pt(1) a by simp
      ultimately show ?thesis using v1 a selok by simp
    qed simp
    from Suc.IH[OF this next_run] show ?thesis .
  qed
qed

lemma select_one_coin_1060:
  "SelectCoinsMinConf demo_env 1000 1 6 0 [cand 7 1060]
     = (True, [mk_CInputCoin (cand 7 1060)], 1060)"
  by code_simp

lemma example_build_env_fields:
  "select_envs example_build_env k j = demo_env"
  "wallet_bSpendZeroConfChange example_build_env = True"
  "walletrejectlongchains example_build_env = False"
  "SelectCoins_nCoinType example_build_env = ALL_COINS"
  "IsDust_dustRelayFee example_build_env out = (nValue out < 10)"
  "CTxOut_IsDust example_build_env out = (nValue out < 10)"
  "GetDustThreshold_minRelayTxFee example_build_env out = 10"
  "GetDustThreshold_discard_rate example_build_env out = 10"
  "GetReservedKey_first example_build_env = Some [2]"
  "GetReservedKey example_build_env k = Some [2]"
  "rand_change_pos example_build_env k = 1"
  "DummySignTx example_build_env S outs = True"
  "GetVirtualTransactionSize example_build_env S outs = 100 * length S + 30 * length outs"
  "GetMinimumFee example_build_env nBytes = int nBytes div 50"
  "minRelayTxFee_GetFee example_build_env nBytes = int nBytes div 100"
  "GetSerializeSize example_build_env out = 30"
  "MIN_FINAL_CHANGE example_build_env = 20"
  "ProduceSignature example_build_env coin = Some [4]"
  "GetTransactionWeight example_build_env ins outs = 400 * length ins + 120 * length outs"
  "MAX_STANDARD_TX_WEIGHT example_build_env = 400000"
  "CalculateMemPoolAncestors example_build_env ins outs = True"
  "vecPrivateSendDenominations example_build_env = [1000, 100, 10]"
  by (simp_all add: example_build_env_def)

lemma SelectCoins_one_coin_1060:
  "SelectCoins example_build_env k (wallet_with_coin_7 1060) [cand 7 1060] 1000 [] 0 (Some no_coin_control)
       ALL_COINS
     = Inr (True, [mk_CInputCoin (cand 7 1060)], 1060)"
  by (simp add: SelectCoins_def no_coin_control_def HasSelected_def Let_def or_else_def
        example_build_env_fields select_one_coin_1060)

lemma CreateTransaction_fee_paid_by_payee:
  "CreateTransaction 5 example_build_env (wallet_with_coin_7 1060) [cand 7 1060] [payee 1000 True] (-1)
       no_coin_control True ALL_COINS
     = Some (Inr \<lparr>res_setCoins = [mk_CInputCoin (cand 7 1060)],
                  res_vin = [\<lparr>prevout = \<lparr>hash = 7, n_out = 0\<rparr>, scriptSig = [4]\<rparr>],
                  res_vout = [\<lparr>nValue = 997, scriptPubKey = [3]\<rparr>,
                              \<lparr>nValue = 60, scriptPubKey = [2]\<rparr>],
                  res_nFeeRet = 3, res_nChangePosInOut = 1, res_nValueIn = 1060,
                  res_newTxOut = Some \<lparr>nValue = 60, scriptPubKey = [2]\<rparr>\<rparr>)"
proof -
  have d: "destChange no_coin_control = None" by (simp add: no_coin_control_def)
  have five: "(5::nat) = Suc (Suc (Suc (Suc (Suc 0))))" by simp
  have m: "mk_CInputCoin (cand 7 1060)
             = \<lparr>outpoint = \<lparr>hash = 7, n_out = 0\<rparr>, txout = \<lparr>nValue = 1060, scriptPubKey = []\<rparr>\<rparr>"
    by (simp add: mk_CInputCoin_def cand_def)
  show ?thesis
    unfolding CreateTransaction_def five
    by (simp add: payee_def d example_build_env_fields SelectCoins_one_coin_1060 Let_def
          change_section_def raise_dust_change_def fee_section_def finish_transaction_def
          change_position_ok_def add_to_change_def signed_modulo_int_def m)
qed


lemma sign_inputs_prevout:
  "sign_inputs env coins nIn ins = Some ins' \<Longrightarrow> map prevout ins' = map prevout ins"
proof (induction coins arbitrary: nIn ins)
  case Nil
  then show ?case by simp
next
  case (Cons coin rest)
  then obtain sig where sg: "ProduceSignature env coin = Some sig"
    by (cases "ProduceSignature env coin") auto
  have "sign_inputs env rest (Suc nIn) (ins[nIn := (ins ! nIn)\<lparr>scriptSig := sig\<rparr>]) = Some ins'"
    using Cons.prems sg by simp
  from Cons.IH[OF this]
  have "map prevout ins' = (map prevout ins)[nIn := prevout (ins ! nIn)]"
    by (simp add: map_update)
  also have "\<dots> = map prevout (ins[nIn := ins ! nIn])"
    by (simp only: map_update)
  also have "\<dots> = map prevout ins"
    by (simp only: list_update_id)
  finally show ?case .
qed

lemma finish_transaction_fields:
  assumes "finish_transaction env sign r = Inr r'"
  shows "r' = r\<lparr>res_vin := res_vin r'\<rparr> \<and> map prevout (res_vin r') = map prevout (res_vin r)"
proof -
  obtain ins where i: "(if sign then sign_inputs env (res_setCoins r) 0 (res_vin r)
                         else Some (res_vin r)) = Some ins"
    and r': "r' = r\<lparr>res_vin := ins\<rparr>"
    using assms by (auto simp: finish_transaction_def split: option.splits if_splits)
  have "map prevout ins = map prevout (res_vin r)"
    using i sign_inputs_prevout[of env "res_setCoins r" 0 "res_vin r" ins]
    by (auto split: if_splits)
  thus ?thesis using r' by simp
qed

lemma CreateTransaction_loop_of:
  assumes "CreateTransaction passes env w vAvail vecSend req cc sign ct = Some (Inr r)"
  shows "\<exists>proto r0. CreateTransaction_loop passes env w vecSend cc ct vAvail
            (sum_list (map nAmount vecSend)) (count_subtract vecSend) req proto 0 0 True 0 []
          = Some (Inr r0)
          \<and> r = r0\<lparr>res_vin := res_vin r\<rparr>
          \<and> map prevout (res_vin r) = map prevout (res_vin r0)"
proof -
  obtain v n where sr: "sum_recipients vecSend 0 0 = Inr (v, n)"
    using assms by (cases "sum_recipients vecSend 0 0") (auto simp: CreateTransaction_def)
  have vn: "v = sum_list (map nAmount vecSend)" "n = count_subtract vecSend"
    using sum_recipients_result[OF sr] by simp_all
  obtain sc where sc: "(case destChange cc of Some s \<Rightarrow> Some s | None \<Rightarrow> GetReservedKey_first env)
                          = Some sc"
    using assms sr by (auto simp: CreateTransaction_def split: if_splits option.splits)
  let ?l = "CreateTransaction_loop passes env w vecSend cc ct vAvail v n req
              \<lparr>nValue = 0, scriptPubKey = sc\<rparr> 0 0 True 0 []"
  obtain r0 where l: "?l = Some (Inr r0)" and f: "finish_transaction env sign r0 = Inr r"
    using assms sr sc
    by (cases ?l) (auto simp: CreateTransaction_def split: if_splits sum.splits)
  show ?thesis using finish_transaction_fields[OF f] l vn by blast
qed






lemma only_coin_7_fields:
  "destChange only_coin_7 = None"
  "HasSelected only_coin_7"
  "\<not> fAllowOtherInputs only_coin_7"
  by (simp_all add: only_coin_7_def HasSelected_def)

lemma mixed_dust_env_fields:
  "SelectCoins_nCoinType mixed_dust_env = ALL_COINS"
  "IsDust_dustRelayFee mixed_dust_env out = (nValue out < 30)"
  "CTxOut_IsDust mixed_dust_env out = (nValue out < 30)"
  "GetDustThreshold_minRelayTxFee mixed_dust_env out = 10"
  "GetDustThreshold_discard_rate mixed_dust_env out = 10"
  "GetReservedKey_first mixed_dust_env = Some [2]"
  "GetReservedKey mixed_dust_env k = Some [2]"
  "rand_change_pos mixed_dust_env k = 1"
  "DummySignTx mixed_dust_env S outs = True"
  "GetVirtualTransactionSize mixed_dust_env S outs = 100 * length S + 30 * length outs"
  "GetMinimumFee mixed_dust_env nBytes = int nBytes div 50"
  "minRelayTxFee_GetFee mixed_dust_env nBytes = int nBytes div 100"
  "GetSerializeSize mixed_dust_env out = 30"
  "MIN_FINAL_CHANGE mixed_dust_env = 20"
  "ProduceSignature mixed_dust_env coin = Some [4]"
  "GetTransactionWeight mixed_dust_env ins outs = 400 * length ins + 120 * length outs"
  "MAX_STANDARD_TX_WEIGHT mixed_dust_env = 400000"
  "walletrejectlongchains mixed_dust_env = False"
  "CalculateMemPoolAncestors mixed_dust_env ins outs = True"
  by (simp_all add: mixed_dust_env_def example_build_env_def)

lemma SelectCoins_only_coin_7:
  "SelectCoins env k w [cand 7 1005] 1000 [] 0 (Some only_coin_7) ALL_COINS
     = Inr (True, [mk_CInputCoin (cand 7 1005)], 1005)"
  by (simp add: SelectCoins_def only_coin_7_fields cand_def)

lemma mk_cand_7_1005:
  "mk_CInputCoin (cand 7 1005)
     = \<lparr>outpoint = \<lparr>hash = 7, n_out = 0\<rparr>, txout = \<lparr>nValue = 1005, scriptPubKey = []\<rparr>\<rparr>"
  by (simp add: mk_CInputCoin_def cand_def)

lemma five_passes: "(5::nat) = Suc (Suc (Suc (Suc (Suc 0))))"
  by simp



lemma CreateTransaction_mixed_dust:
  "CreateTransaction 5 mixed_dust_env (wallet_with_coin_7 1005) [cand 7 1005] [payee 1000 True] (-1)
       only_coin_7 True ALL_COINS
     = Some (Inr \<lparr>res_setCoins = [mk_CInputCoin (cand 7 1005)],
                  res_vin = [\<lparr>prevout = \<lparr>hash = 7, n_out = 0\<rparr>, scriptSig = [4]\<rparr>],
                  res_vout = [\<lparr>nValue = 995, scriptPubKey = [3]\<rparr>],
                  res_nFeeRet = 5, res_nChangePosInOut = -1, res_nValueIn = 1005,
                  res_newTxOut = Some \<lparr>nValue = 5, scriptPubKey = [2]\<rparr>\<rparr>)"
  unfolding CreateTransaction_def five_passes
  by (simp add: payee_def only_coin_7_fields mixed_dust_env_fields SelectCoins_only_coin_7
        Let_def change_section_def raise_dust_change_def fee_section_def
        finish_transaction_def change_position_ok_def add_to_change_def
        signed_modulo_int_def mk_cand_7_1005)







text \<open>
  Conservation when the two dust tests of the change section agree.  If an output worth
  \<open>GetDustThreshold(out, ::minRelayTxFee)\<close> is never dust for the member \<open>IsDust()\<close>,
  and the environment is otherwise as the rest of the program makes it (\<open>MIN_CHANGE\<close> not
  negative, distinct outpoints among the candidates, distinct denominations, a
  coin-control selection without repetition, every wallet record stored under its own
  hash, a dust threshold of the change prototype that is not negative), then every
  successful call spends exactly the value of its outputs plus \<open>nFeeRet\<close>, whichever way
  the fee loop was left.
\<close>

theorem CreateTransaction_conserves_value_consistent_dust:
  assumes "\<forall>k j. 0 \<le> MIN_CHANGE (select_envs env k j)"
    and "distinct (map (\<lambda>out. outpoint (mk_CInputCoin out)) vAvailableCoins)"
    and "distinct (vecPrivateSendDenominations env)"
    and "distinct (setSelected cc)"
    and "\<forall>e\<in>set (mapWallet w). txhash (tx (snd e)) = fst e"
    and "\<forall>out. \<not> CTxOut_IsDust env (out\<lparr>nValue := GetDustThreshold_minRelayTxFee env out\<rparr>)"
    and "\<forall>out. 0 \<le> GetDustThreshold_discard_rate env out"
    and "CreateTransaction passes env w vAvailableCoins vecSend nChangePosRequest cc sign nCoinType
           = Some (Inr r)"
  shows "sum_list (map coin_value (res_setCoins r))
           = sum_list (map nValue (res_vout r)) + res_nFeeRet r
       \<and> map prevout (res_vin r) = map outpoint (res_setCoins r)"
proof -
  obtain proto r0 where
    l: "CreateTransaction_loop passes env w vecSend cc nCoinType vAvailableCoins
          (sum_list (map nAmount vecSend)) (count_subtract vecSend) nChangePosRequest proto
          0 0 True 0 [] = Some (Inr r0)"
    and r: "r = r0\<lparr>res_vin := res_vin r\<rparr>"
    and p: "map prevout (res_vin r) = map prevout (res_vin r0)"
    using CreateTransaction_loop_of[OF assms(8)] by blast
  have f: "res_setCoins r = res_setCoins r0" "res_vout r = res_vout r0"
    "res_nFeeRet r = res_nFeeRet r0"
    by (subst r, simp)+
  from CreateTransaction_loop_conserves[OF assms(1-7) _ l]
  show ?thesis unfolding f p by (simp add: sum_coins_def sum_vout_def comp_def)
qed

theorem CreateTransaction_conserves_value_consistent_dust_example:
  "\<exists>r. CreateTransaction 5 example_build_env (wallet_with_coin_7 1060) [cand 7 1060] [payee 1000 True] (-1)
          no_coin_control True ALL_COINS = Some (Inr r)
       \<and> sum_list (map coin_value (res_setCoins r)) = 1060
       \<and> sum_list (map nValue (res_vout r)) = 1057
       \<and> res_nFeeRet r = 3"
proof -
  have 1: "\<forall>k j. 0 \<le> MIN_CHANGE (select_envs example_build_env k j)"
    by (simp add: example_build_env_fields demo_env_def)
  have 2: "distinct (map (\<lambda>out. outpoint (mk_CInputCoin out)) [cand 7 1060])" by simp
  have 3: "distinct (vecPrivateSendDenominations example_build_env)"
    by (simp add: example_build_env_fields)
  have 4: "distinct (setSelected no_coin_control)" by (simp add: no_coin_control_def)
  have 5: "\<forall>e\<in>set (mapWallet (wallet_with_coin_7 1060)). txhash (tx (snd e)) = fst e"
    by (simp add: wallet_with_coin_7_def example_wtx_def)
  have 6: "\<forall>out. \<not> CTxOut_IsDust example_build_env
            (out\<lparr>nValue := GetDustThreshold_minRelayTxFee example_build_env out\<rparr>)"
    by (simp add: example_build_env_fields)
  have 7: "\<forall>out. 0 \<le> GetDustThreshold_discard_rate example_build_env out"
    by (simp add: example_build_env_fields)
  note c = CreateTransaction_conserves_value_consistent_dust[OF 1 2 3 4 5 6 7 CreateTransaction_fee_paid_by_payee]
  show ?thesis
    using c CreateTransaction_fee_paid_by_payee by simp
qed


section \<open>Claims about the coin selector\<close>

text \<open>
  C10. \<open>SelectCoinsMinConf\<close> starts from the cleared result parameters (the empty coin
  set and the value 0), so whenever a call reports failure the selection it returns is
  empty and the value it returns is 0.
\<close>

theorem SelectCoinsMinConf_failure_returns_nothing:
  "fst (SelectCoinsMinConf env nTargetValue nConfMine nConfTheirs nMaxAncestors vCoins) = False
   \<Longrightarrow> SelectCoinsMinConf env nTargetValue nConfMine nConfTheirs nMaxAncestors vCoins
         = (False, [], 0)"
  unfolding SelectCoinsMinConf_def
  by (auto split: scan_result.splits option.splits prod.splits if_splits simp: Let_def)

theorem SelectCoinsMinConf_failure_returns_nothing_witness:
  "fst (SelectCoinsMinConf demo_env 10 1 6 0 [cand 7 1, cand 8 2]) = False
   \<and> SelectCoinsMinConf demo_env 10 1 6 0 [cand 7 1, cand 8 2] = (False, [], 0)"
proof -
  have "SelectCoinsMinConf demo_env 10 1 6 0 [cand 7 1, cand 8 2] = (False, [], 0)"
    by (rule select_coins_1_2) (simp_all add: demo_env_def cand_def)
  then have h: "fst (SelectCoinsMinConf demo_env 10 1 6 0 [cand 7 1, cand 8 2]) = False"
    by simp
  show ?thesis
    by (rule conjI[OF h SelectCoinsMinConf_failure_returns_nothing[OF h]])
qed

text \<open>
  C6.  With a non-negative \<open>MIN_CHANGE\<close>, non-negative coin values, and the target, the
  coin values and the sum \<open>target + MIN_CHANGE\<close> within the 64 bits of an amount: when no
  candidate that passes the filters equals the target and the candidates below
  \<open>target + MIN_CHANGE\<close> sum to less than the target, the selector returns the single
  smallest filtered candidate larger than the target if there is one, and fails with the
  empty selection otherwise.  A single candidate of 100 with target 10 is selected;
  candidates 1 and 2 with target 10 fail.
\<close>

theorem select_single_larger_coin_or_insufficient:
  assumes "0 \<le> MIN_CHANGE env"
    and "in_int64 (10 + MIN_CHANGE env)"
  shows "(in_int64 t \<and> in_int64 (t + MIN_CHANGE env)
          \<and> (\<forall>cand\<in>set vCoins. 0 \<le> nValue (tx_out cand) \<and> in_int64 (nValue (tx_out cand)))
          \<and> (\<forall>cand\<in>set (filtered_candidates env cm ct ma vCoins). nValue (tx_out cand) \<noteq> t)
          \<and> sum_list (map (\<lambda>cand. nValue (tx_out cand))
                (filter (\<lambda>cand. nValue (tx_out cand) < t + MIN_CHANGE env)
                   (filtered_candidates env cm ct ma vCoins))) < t
          \<longrightarrow>
          (if \<exists>cand\<in>set (filtered_candidates env cm ct ma vCoins). t < nValue (tx_out cand)
           then \<exists>cand\<in>set (filtered_candidates env cm ct ma vCoins).
                  t < nValue (tx_out cand)
                  \<and> (\<forall>other\<in>set (filtered_candidates env cm ct ma vCoins).
                        t < nValue (tx_out other) \<longrightarrow> nValue (tx_out cand) \<le> nValue (tx_out other))
                  \<and> SelectCoinsMinConf env t cm ct ma vCoins
                       = (True, [mk_CInputCoin cand], nValue (tx_out cand))
           else SelectCoinsMinConf env t cm ct ma vCoins = (False, [], 0)))
       \<and> (coin_eligible env cm ct ma c100 \<and> nValue (tx_out c100) = 100
            \<longrightarrow> SelectCoinsMinConf env 10 cm ct ma [c100] = (True, [mk_CInputCoin c100], 100))
       \<and> (nValue (tx_out c1) = 1 \<and> nValue (tx_out c2) = 2
            \<longrightarrow> SelectCoinsMinConf env 10 cm ct ma [c1, c2] = (False, [], 0))"
  using select_rule5[OF assms(1), of vCoins cm ct ma t]
    select_single_coin_100[OF assms(1), of cm ct ma c100]
    select_coins_1_2[OF assms(1), of c1 c2 cm ct ma]
  by blast

theorem select_single_larger_coin_or_insufficient_witness:
  "0 \<le> MIN_CHANGE demo_env \<and> in_int64 (10 + MIN_CHANGE demo_env) \<and> in_int64 10
   \<and> 0 \<le> nValue (tx_out (cand 7 100)) \<and> in_int64 (nValue (tx_out (cand 7 100)))
   \<and> filtered_candidates demo_env 1 6 0 [cand 7 100] = [cand 7 100]
   \<and> nValue (tx_out (cand 7 100)) \<noteq> 10
   \<and> sum_list (map (\<lambda>c. nValue (tx_out c))
         (filter (\<lambda>c. nValue (tx_out c) < 10 + MIN_CHANGE demo_env) [cand 7 100])) < 10
   \<and> 10 < nValue (tx_out (cand 7 100))
   \<and> coin_eligible demo_env 1 6 0 (cand 7 100)
   \<and> SelectCoinsMinConf demo_env 10 1 6 0 [cand 7 100] = (True, [mk_CInputCoin (cand 7 100)], 100)
   \<and> SelectCoinsMinConf demo_env 10 1 6 0 [cand 7 1, cand 8 2] = (False, [], 0)"
proof -
  have mc: "0 \<le> MIN_CHANGE demo_env" by (simp add: demo_env_def)
  have el: "coin_eligible demo_env 1 6 0 (cand 7 100)"
    by (simp add: coin_eligible_def demo_env_def cand_def)
  have rg: "in_int64 (10 + MIN_CHANGE demo_env)" by (simp add: demo_env_def in_int64_def)
  have fc: "filtered_candidates demo_env 1 6 0 [cand 7 100] = [cand 7 100]"
    using el by (simp add: filtered_candidates_def)
  have v: "nValue (tx_out (cand 7 100)) = 100" "nValue (tx_out (cand 7 1)) = 1"
    "nValue (tx_out (cand 8 2)) = 2" by (simp_all add: cand_def)
  have m: "MIN_CHANGE demo_env = 50" by (simp add: demo_env_def)
  have r: "in_int64 10" "in_int64 100" by (simp_all add: in_int64_def)
  from select_single_larger_coin_or_insufficient[OF mc rg,
         of 10 "[cand 7 100]" 1 6 0 "cand 7 100" "cand 7 1" "cand 8 2"]
  show ?thesis unfolding fc using el v m r rg by simp
qed

text \<open>
  C7 (as amended). For eligible candidates of values 10, 20 and 5 with distinct
  outpoints and target 15, the selector always succeeds with a selection worth at least
  the target; it returns exactly the coins 10 and 5 if and only if \<open>MIN_CHANGE \<le> 5\<close> or
  at least one of the 1000 rounds of the first subset search draws bits other than
  "include 20, and not both 10 and 5".
\<close>

theorem select_10_20_5_target_15:
  assumes "0 \<le> MIN_CHANGE env"
    and "coin_eligible env cm ct ma a" "coin_eligible env cm ct ma b"
        "coin_eligible env cm ct ma c"
    and "nValue (tx_out a) = 10" "nValue (tx_out b) = 20" "nValue (tx_out c) = 5"
    and "distinct [outpoint (mk_CInputCoin a), outpoint (mk_CInputCoin b),
                   outpoint (mk_CInputCoin c)]"
  shows "\<exists>cs v. SelectCoinsMinConf env 15 cm ct ma [a, b, c] = (True, cs, v)
            \<and> 15 \<le> v \<and> sum_list (map coin_value cs) = v
            \<and> ((set cs = {mk_CInputCoin a, mk_CInputCoin c} \<and> v = 15)
                 \<longleftrightarrow> (MIN_CHANGE env \<le> 5
                      \<or> (\<exists>r<1000. good_round (rand_bits1 env) r)))"
  using assms by (rule select_exact_sum_instance)

theorem select_10_20_5_target_15_witness:
  "\<exists>cs. SelectCoinsMinConf demo_env 15 1 6 0 [cand 7 10, cand 8 20, cand 9 5] = (True, cs, 15)
        \<and> set cs = {mk_CInputCoin (cand 7 10), mk_CInputCoin (cand 9 5)}"
proof -
  have mc: "0 \<le> MIN_CHANGE demo_env" by (simp add: demo_env_def)
  have el: "coin_eligible demo_env 1 6 0 (cand 7 10)" "coin_eligible demo_env 1 6 0 (cand 8 20)"
    "coin_eligible demo_env 1 6 0 (cand 9 5)"
    by (simp_all add: coin_eligible_def demo_env_def cand_def)
  have v: "nValue (tx_out (cand 7 10)) = 10" "nValue (tx_out (cand 8 20)) = 20"
    "nValue (tx_out (cand 9 5)) = 5" by (simp_all add: cand_def)
  have d: "distinct [outpoint (mk_CInputCoin (cand 7 10)), outpoint (mk_CInputCoin (cand 8 20)),
                     outpoint (mk_CInputCoin (cand 9 5))]"
    by (simp add: mk_CInputCoin_def cand_def)
  have g: "\<exists>r<1000. good_round (rand_bits1 demo_env) r"
    by (rule exI[of _ 0]) (simp add: good_round_def demo_env_def)
  from select_10_20_5_target_15[OF mc el v d] g show ?thesis by auto
qed

text \<open>
  C7 as stated fails: with \<open>MIN_CHANGE = 1000000\<close> and a random source that draws
  "include 20, skip 10, skip 5" in every round, the selection is the coin 20 alone.
\<close>

theorem select_10_20_5_unlucky_counterexample:
  "SelectCoinsMinConf cex_env 15 1 6 0 [cand 7 10, cand 8 20, cand 9 5]
   = (True, [mk_CInputCoin (cand 8 20)], 20)"
proof -
  let ?A = "mk_CInputCoin (cand 7 10)" and ?B = "mk_CInputCoin (cand 8 20)"
    and ?C = "mk_CInputCoin (cand 9 5)"
  have cv: "coin_value ?B = 20" "coin_value ?A = 10" "coin_value ?C = 5"
    by (simp_all add: cand_def)
  have sh: "random_shuffle (shuffle_draws cex_env) [cand 7 10, cand 8 20, cand 9 5]
              = [cand 9 5, cand 7 10, cand 8 20]"
    by (simp add: random_shuffle_def cex_env_def numeral_2_eq_2 swap_at_def)
  have sc: "scan_coins cex_env 15 1 6 0 [cand 9 5, cand 7 10, cand 8 20] [] 0 None
              = Scanned [?C, ?A, ?B] 35 None"
    by (simp add: coin_eligible_def cex_env_def cand_def Let_def)
  have srt: "sort_descending [?C, ?A, ?B] = [?B, ?A, ?C]"
    by (simp add: sort_descending_def cand_def)
  have bad: "\<forall>r<1000. \<not> good_round (rand_bits1 cex_env) r"
    by (simp add: good_round_def cex_env_def)
  have a1: "ApproximateBestSubset (rand_bits1 cex_env) [?B, ?A, ?C] 35 15 1000
              = ([True, False, False], 20)"
    by (rule ApproximateBestSubset3_bad[OF cv bad]) simp
  have mc: "MIN_CHANGE cex_env = 1000000" by (simp add: cex_env_def)
  note srt = srt[unfolded cand_def] and a1 = a1[unfolded cand_def]
  show ?thesis
    unfolding SelectCoinsMinConf_def sh sc
    by (simp add: srt a1 mc cand_def)
qed

section \<open>Claims about the ledger\<close>

text \<open>
  C3 (as amended). \<open>CWallet::GetConflicts\<close> returns, for every input of the queried
  transaction whose outpoint has more than one recorded spender, every recorded spender
  of that outpoint, the queried transaction included; the record's own query
  \<open>CWalletTx::GetConflicts\<close> removes its own id from that result, so only there the
  queried id never appears.
\<close>

theorem GetConflicts_includes_every_spender:
  "set (GetConflicts w txid)
     = (case map_find (mapWallet w) txid of
          None \<Rightarrow> {}
        | Some wtx \<Rightarrow>
            {s. \<exists>txin\<in>set (vin (tx wtx)).
                  1 < multimap_count (mapTxSpends w) (prevout txin)
                  \<and> (prevout txin, s) \<in> set (mapTxSpends w)})
   \<and> txhash (tx wtx) \<notin> set (CWalletTx_GetConflicts w wtx)
   \<and> set (CWalletTx_GetConflicts w wtx)
        = set (GetConflicts w (txhash (tx wtx))) - {txhash (tx wtx)}"
  by (auto simp: GetConflicts_def CWalletTx_GetConflicts_def set_GetConflicts_fold Let_def
           split: option.splits)

theorem GetConflicts_includes_every_spender_witness:
  "set (GetConflicts conflict_wallet 11) = {11, 12}
   \<and> 11 \<notin> set (CWalletTx_GetConflicts conflict_wallet (example_wtx 11 [spend_of 9 0] [pay 5]))"
proof -
  have h: "txhash (tx (example_wtx 11 [spend_of 9 0] [pay 5])) = 11"
    by (simp add: example_wtx_def)
  from GetConflicts_includes_every_spender[of conflict_wallet 11 "example_wtx 11 [spend_of 9 0] [pay 5]"]
  show ?thesis unfolding h
    by (simp add: conflict_wallet_def map_find_def example_wtx_def spend_of_def
          multimap_count_def equal_range_def) auto
qed

text \<open>
  C3 as stated fails for \<open>CWallet::GetConflicts\<close>: with transactions 11 and 12 both
  spending the same outpoint, the conflicts of 11 contain 11 itself.
\<close>

theorem GetConflicts_contains_queried_counterexample:
  "11 \<in> set (GetConflicts conflict_wallet 11)"
  by (simp add: GetConflicts_conflict_wallet)

text \<open>
  C5. \<open>AbandonTransaction\<close> on a tracked transaction whose confirmation depth is
  positive or which is in the mempool returns false and the wallet it leaves is the
  wallet it was given: no record, no order position and no entry of the spend index
  has changed.
\<close>

theorem AbandonTransaction_refuses_confirmed_or_in_mempool:
  assumes "map_find (mapWallet w) hashTx = Some origtx"
    and "GetDepthInMainChain cv origtx > 0 \<or> InMempool origtx"
  shows "AbandonTransaction cv w hashTx = Inr (False, w)"
  using assms by (simp add: AbandonTransaction_def)

theorem AbandonTransaction_refuses_confirmed_or_in_mempool_witness:
  "AbandonTransaction example_chain busy_wallet 21 = Inr (False, busy_wallet)
   \<and> AbandonTransaction example_chain busy_wallet 22 = Inr (False, busy_wallet)"
proof -
  let ?a = "(example_wtx 21 [spend_of 9 0] [pay 5])\<lparr>fInMempool := True\<rparr>"
  let ?b = "(example_wtx 22 [spend_of 9 1] [pay 4])\<lparr>hashBlock := 500, nIndex := 3\<rparr>"
  have 1: "map_find (mapWallet busy_wallet) 21 = Some ?a"
    by (simp add: busy_wallet_def map_find_def)
  have 2: "map_find (mapWallet busy_wallet) 22 = Some ?b"
    by (simp add: busy_wallet_def map_find_def)
  have 3: "GetDepthInMainChain example_chain ?a > 0 \<or> InMempool ?a"
    by (simp add: InMempool_def example_wtx_def)
  have 4: "GetDepthInMainChain example_chain ?b > 0 \<or> InMempool ?b"
    by (simp add: GetDepthInMainChain_def example_chain_def example_wtx_def hashUnset_def
          ABANDON_HASH_def Let_def)
  show ?thesis
    using AbandonTransaction_refuses_confirmed_or_in_mempool[OF 1 3]
      AbandonTransaction_refuses_confirmed_or_in_mempool[OF 2 4] by simp
qed

text \<open>
  C9. After a call of \<open>AddToWallet\<close> that succeeded, a second call with the same
  transaction (whatever block reference it carries) leaves the spend index, the ordered
  list, the next order position, the set of records, and every record's insertion order
  and cached amounts exactly as the first call left them.
\<close>

theorem AddToWallet_twice_is_idempotent:
  assumes "AddToWallet env cv w wtxIn = Inr (True, w1)"
  shows "\<exists>r w2. AddToWallet env' cv' w1 wtxIn = Inr (r, w2)
           \<and> mapTxSpends w2 = mapTxSpends w1
           \<and> wtxOrdered w2 = wtxOrdered w1
           \<and> nOrderPosNext w2 = nOrderPosNext w1
           \<and> map fst (mapWallet w2) = map fst (mapWallet w1)
           \<and> (\<forall>k. map_option nOrderPos (map_find (mapWallet w2) k)
                    = map_option nOrderPos (map_find (mapWallet w1) k))
           \<and> (\<forall>k. map_option cached_amounts (map_find (mapWallet w2) k)
                    = map_option cached_amounts (map_find (mapWallet w1) k))"
  using assms by (rule AddToWallet_again)

theorem AddToWallet_twice_is_idempotent_witness:
  "AddToWallet example_add_env example_chain empty_wallet (example_wtx 31 [spend_of 9 0] [pay 5])
     = Inr (True, wallet_with_31)
   \<and> (\<exists>r w2. AddToWallet example_add_env example_chain wallet_with_31
                 (example_wtx 31 [spend_of 9 0] [pay 5]) = Inr (r, w2)
           \<and> mapTxSpends w2 = mapTxSpends wallet_with_31
           \<and> wtxOrdered w2 = wtxOrdered wallet_with_31
           \<and> nOrderPosNext w2 = nOrderPosNext wallet_with_31
           \<and> map fst (mapWallet w2) = map fst (mapWallet wallet_with_31)
           \<and> (\<forall>k. map_option nOrderPos (map_find (mapWallet w2) k)
                    = map_option nOrderPos (map_find (mapWallet wallet_with_31) k))
           \<and> (\<forall>k. map_option cached_amounts (map_find (mapWallet w2) k)
                    = map_option cached_amounts (map_find (mapWallet wallet_with_31) k)))"
  by (rule conjI[OF AddToWallet_first_31
        AddToWallet_twice_is_idempotent[OF AddToWallet_first_31]])


text \<open>
  C4 (as amended).  When the spend index is a sorted multimap whose spenders are all
  tracked, the transaction is tracked and the block conflicts (its conflict depth is
  negative), one call of \<open>MarkConflicted\<close> returns, on every finite spend index, cycles
  included.  Call reachable the transaction itself, if its depth is greater than the
  conflict depth, and every spender of an output of a reachable transaction whose own
  depth is greater than the conflict depth.  The call marks exactly the reachable
  transactions as conflicted with the block (position -1, the block's hash); every other
  identifier has afterwards the same transaction, block hash and position as before, and
  the spend index is unchanged.  Nothing is said about the cached amounts.
\<close>

theorem MarkConflicted_marks_reachable_spenders:
  assumes "multimap_sorted (mapTxSpends w)"
    and "\<forall>e\<in>set (mapTxSpends w). has_key (mapWallet w) (snd e)"
    and "has_key (mapWallet w) hashTx"
    and "conflictconfirms_of cv hashBlk < 0"
  shows "\<exists>w'. MarkConflicted cv w hashBlk hashTx = Inr w'
           \<and> mapTxSpends w' = mapTxSpends w
           \<and> (\<forall>x. conflict_reach cv w (conflictconfirms_of cv hashBlk) hashTx x \<longrightarrow>
                 (\<exists>r. map_find (mapWallet w') x = Some r \<and> nIndex r = -1
                       \<and> hashBlock r = hashBlk))
           \<and> (\<forall>x. \<not> conflict_reach cv w (conflictconfirms_of cv hashBlk) hashTx x \<longrightarrow>
                 map_option (\<lambda>r. (tx r, hashBlock r, nIndex r)) (map_find (mapWallet w') x)
                   = map_option (\<lambda>r. (tx r, hashBlock r, nIndex r)) (map_find (mapWallet w) x))"
  using assms by (rule MarkConflicted_exact)

theorem MarkConflicted_marks_reachable_spenders_witness:
  "(\<exists>w'. MarkConflicted example_chain cycle_wallet 500 51 = Inr w'
      \<and> (\<exists>r. map_find (mapWallet w') 51 = Some r \<and> nIndex r = -1 \<and> hashBlock r = 500)
      \<and> (\<exists>r. map_find (mapWallet w') 52 = Some r \<and> nIndex r = -1 \<and> hashBlock r = 500))
   \<and> (\<exists>w'. MarkConflicted example_chain stale_wallet 500 41 = Inr w'
      \<and> (\<exists>r. map_find (mapWallet w') 41 = Some r \<and> nIndex r = -1 \<and> hashBlock r = 500)
      \<and> map_option (\<lambda>r. (tx r, hashBlock r, nIndex r)) (map_find (mapWallet w') 42)
           = map_option (\<lambda>r. (tx r, hashBlock r, nIndex r)) (map_find (mapWallet stale_wallet) 42)
      \<and> map_option (\<lambda>r. (tx r, hashBlock r, nIndex r)) (map_find (mapWallet w') 43)
           = map_option (\<lambda>r. (tx r, hashBlock r, nIndex r)) (map_find (mapWallet stale_wallet) 43))"
proof -
  have cc: "conflictconfirms_of example_chain 500 < 0" by (simp add: conflictconfirms_tip)
  have d: "conflictconfirms_of example_chain 500 < GetDepthInMainChain example_chain (example_wtx h ins outs)"
    for h ins outs by (simp add: conflictconfirms_tip depth_unconfirmed_example)
  have srt: "multimap_sorted (mapTxSpends cycle_wallet)"
    by (simp add: multimap_sorted_def cycle_wallet_def outpoint_less_def)
  have tr: "\<forall>e\<in>set (mapTxSpends cycle_wallet). has_key (mapWallet cycle_wallet) (snd e)"
    by (simp add: cycle_wallet_def has_key_def map_find_def)
  have root: "has_key (mapWallet cycle_wallet) 51"
    by (simp add: cycle_wallet_def has_key_def map_find_def)
  have f1: "map_find (mapWallet cycle_wallet) 51 = Some (example_wtx 51 [spend_of 52 0] [pay 5])"
    and f2: "map_find (mapWallet cycle_wallet) 52 = Some (example_wtx 52 [spend_of 51 0] [pay 4])"
    by (simp_all add: cycle_wallet_def map_find_def)
  have r1: "conflict_reach example_chain cycle_wallet (conflictconfirms_of example_chain 500) 51 51"
    by (rule reach_root[OF f1 d])
  have m: "(\<lparr>hash = 51, n_out = 0\<rparr>, 52) \<in> set (mapTxSpends cycle_wallet)"
    by (simp add: cycle_wallet_def)
  have r2: "conflict_reach example_chain cycle_wallet (conflictconfirms_of example_chain 500) 51 52"
    by (rule reach_spender[OF r1 m _ f2 d]) simp
  have one: "\<exists>w'. MarkConflicted example_chain cycle_wallet 500 51 = Inr w'
      \<and> (\<exists>r. map_find (mapWallet w') 51 = Some r \<and> nIndex r = -1 \<and> hashBlock r = 500)
      \<and> (\<exists>r. map_find (mapWallet w') 52 = Some r \<and> nIndex r = -1 \<and> hashBlock r = 500)"
    using MarkConflicted_marks_reachable_spenders[OF srt tr root cc] r1 r2 by blast
  have srt': "multimap_sorted (mapTxSpends stale_wallet)"
    by (simp add: multimap_sorted_def stale_wallet_def outpoint_less_def)
  have tr': "\<forall>e\<in>set (mapTxSpends stale_wallet). has_key (mapWallet stale_wallet) (snd e)"
    by (simp add: stale_wallet_def has_key_def map_find_def)
  have root': "has_key (mapWallet stale_wallet) 41"
    by (simp add: stale_wallet_def has_key_def map_find_def)
  have r41: "conflict_reach example_chain stale_wallet (conflictconfirms_of example_chain 500) 41 41"
    by (rule reach_root[OF stale_wallet_finds(1) d])
  have two: "\<exists>w'. MarkConflicted example_chain stale_wallet 500 41 = Inr w'
      \<and> (\<exists>r. map_find (mapWallet w') 41 = Some r \<and> nIndex r = -1 \<and> hashBlock r = 500)
      \<and> map_option (\<lambda>r. (tx r, hashBlock r, nIndex r)) (map_find (mapWallet w') 42)
           = map_option (\<lambda>r. (tx r, hashBlock r, nIndex r)) (map_find (mapWallet stale_wallet) 42)
      \<and> map_option (\<lambda>r. (tx r, hashBlock r, nIndex r)) (map_find (mapWallet w') 43)
           = map_option (\<lambda>r. (tx r, hashBlock r, nIndex r)) (map_find (mapWallet stale_wallet) 43)"
    using MarkConflicted_marks_reachable_spenders[OF srt' tr' root' cc] r41
      stale_42_not_reached stale_43_not_reached by blast
  show ?thesis using one two by (rule conjI)
qed

text \<open>
  C4 as stated fails: transaction 43 spends 42, which spends 41; 42 is already conflicted
  six blocks deep, so marking 41 conflicted with the tip stops at 42 and leaves 43
  unconfirmed and unmarked.
\<close>

theorem MarkConflicted_skips_behind_deeper_conflict_counterexample:
  "MarkConflicted example_chain stale_wallet 500 41 = Inr stale_wallet_after
   \<and> (\<lparr>hash = 41, n_out = 0\<rparr>, 42) \<in> set (mapTxSpends stale_wallet)
   \<and> (\<lparr>hash = 42, n_out = 0\<rparr>, 43) \<in> set (mapTxSpends stale_wallet)
   \<and> map_find (mapWallet stale_wallet_after) 43 = Some (example_wtx 43 [spend_of 42 0] [pay 3])
   \<and> hashBlock (example_wtx 43 [spend_of 42 0] [pay 3]) = 0
   \<and> GetDepthInMainChain example_chain (example_wtx 43 [spend_of 42 0] [pay 3]) = 0"
  by (simp add: MarkConflicted_stale depth_unconfirmed_example)
     (simp add: stale_wallet_def stale_wallet_after_def map_find_def example_wtx_def)

section \<open>Claims about the balance view\<close>




section \<open>Claims about the transaction builder\<close>

text \<open>
  C1 fails on one path of the change section.  When a recipient pays the fee and the
  surplus \<open>nChange\<close> is dust, lines 3054 to 3069 raise the change output to
  \<open>GetDustThreshold(newTxOut, ::minRelayTxFee)\<close> and take the difference \<open>nDust\<close> from
  the first recipient that pays the fee ("raise change until no more dust").  Line 3073
  then asks the member \<open>IsDust()\<close> again; when it still calls the raised output dust, no
  change output is made and line 3075 adds only \<open>nChange\<close> to the fee, so \<open>nDust\<close> is
  neither in the outputs nor in \<open>nFeeRet\<close>.  Here \<open>IsDust()\<close> calls dust what is below 30
  and the threshold at \<open>::minRelayTxFee\<close> is 10: a coin of 1005 and one recipient of 1000
  who pays the fee give a successful call whose outputs are worth 995 and whose fee is 5.
\<close>

theorem CreateTransaction_loses_raised_dust:
  "CreateTransaction 5 mixed_dust_env (wallet_with_coin_7 1005) [cand 7 1005] [payee 1000 True] (-1)
       only_coin_7 True ALL_COINS
     = Some (Inr \<lparr>res_setCoins = [mk_CInputCoin (cand 7 1005)],
                  res_vin = [\<lparr>prevout = \<lparr>hash = 7, n_out = 0\<rparr>, scriptSig = [4]\<rparr>],
                  res_vout = [\<lparr>nValue = 995, scriptPubKey = [3]\<rparr>],
                  res_nFeeRet = 5, res_nChangePosInOut = -1, res_nValueIn = 1005,
                  res_newTxOut = Some \<lparr>nValue = 5, scriptPubKey = [2]\<rparr>\<rparr>)
   \<and> sum_list (map coin_value [mk_CInputCoin (cand 7 1005)]) = 1005
   \<and> sum_list (map nValue [\<lparr>nValue = 995, scriptPubKey = [3]\<rparr>]) + 5 = 1000"
  using CreateTransaction_mixed_dust by (simp add: cand_def)




end
